theory Spec2Isabelle
  imports Complex_Main "HOL-Library.Word" "HOL-Library.Sublist"
begin

unbundle bit_operations_syntax

section \<open>C values: bytes, buffers, faults, integer division\<close>

text \<open>
  The WebAssembly modules are C. A buffer argument is a pointer that may be null; a
  non-null one stands for the allocation it points to, whose real length is the length of the
  list. The \<^verbatim>\<open>int\<close> size arguments are separate, as in the source. A read or write outside
  the allocation, a division by zero and a float-to-int conversion out of range have no
  defined result in C: the models return them as faults, so that "no out-of-bounds access"
  is the statement that the model returns \<open>Inr\<close>.
\<close>

type_synonym byte = "8 word"

datatype 'a ptr = NULL | Buf "'a list"

datatype c_fault = DivByZero | OutOfBounds | FloatToIntRange

definition rd :: "'a list \<Rightarrow> int \<Rightarrow> c_fault + 'a" where
  "rd buf i = (if 0 \<le> i \<and> i < int (length buf) then Inr (buf ! nat i) else Inl OutOfBounds)"

definition wr :: "'a list \<Rightarrow> int \<Rightarrow> 'a \<Rightarrow> c_fault + 'a list" where
  "wr buf i v = (if 0 \<le> i \<and> i < int (length buf) then Inr (buf[nat i := v]) else Inl OutOfBounds)"

text \<open>
  \<^verbatim>\<open>memcpy(dst + doff, src + soff, n)\<close>; a negative \<open>n\<close> converts to a huge \<^verbatim>\<open>size_t\<close>
  and leaves every allocation.
\<close>

definition memcpy :: "byte list \<Rightarrow> int \<Rightarrow> byte list \<Rightarrow> int \<Rightarrow> int \<Rightarrow> c_fault + byte list" where
  "memcpy dst doff src soff n =
     (if 0 \<le> n \<and> 0 \<le> doff \<and> 0 \<le> soff \<and>
         doff + n \<le> int (length dst) \<and> soff + n \<le> int (length src)
      then Inr (take (nat doff) dst @ take (nat n) (drop (nat soff) src) @ drop (nat (doff + n)) dst)
      else Inl OutOfBounds)"

text \<open>C's \<^verbatim>\<open>/\<close> on \<^verbatim>\<open>int\<close> truncates towards zero; the divisor is checked by the caller.\<close>

definition cdiv :: "int \<Rightarrow> int \<Rightarrow> int" where
  "cdiv a b = sgn a * sgn b * (\<bar>a\<bar> div \<bar>b\<bar>)"

text \<open>
  32-bit \<^verbatim>\<open>int\<close> arithmetic as WebAssembly executes it: the result wraps around
  (two's complement).
\<close>

definition s32 :: "int \<Rightarrow> int" where
  "s32 x = (x + 2 ^ 31) mod 2 ^ 32 - 2 ^ 31"

text \<open>
  What a call hands back to its caller: the \<^verbatim>\<open>int\<close> it returns, and the contents of the
  output buffer afterwards (neither exists after a fault).
\<close>

definition returned :: "c_fault + (int \<times> byte ptr) \<Rightarrow> int option" where
  "returned r = (case r of Inr (n, b) \<Rightarrow> Some n | Inl e \<Rightarrow> None)"

definition output_of :: "c_fault + (int \<times> byte ptr) \<Rightarrow> byte list option" where
  "output_of r = (case r of Inr (n, Buf out) \<Rightarrow> Some out | _ \<Rightarrow> None)"

section \<open>Single-precision floating point\<close>

text \<open>
  The C sources compute sizes and coordinates in \<^verbatim>\<open>float\<close>. A finite float is a rational
  number; every operation is the exact operation followed by rounding to the nearest
  number with a 24-bit significand, ties to even (IEEE 754 binary32, as WebAssembly's
  \<^verbatim>\<open>f32\<close> operations compute). Only normal numbers occur here (the
  operands are 32-bit integers and their quotients), so subnormals, infinities and NaN are
  not modelled.
\<close>

fun bit_length :: "nat \<Rightarrow> nat" where
  "bit_length n = (if n = 0 then 0 else Suc (bit_length (n div 2)))"

declare bit_length.simps [simp del]

definition pow2 :: "int \<Rightarrow> rat" where
  "pow2 e = (if 0 \<le> e then 2 ^ nat e else 1 / 2 ^ nat (- e))"

text \<open>\<open>ilog2 x\<close> is the binary exponent of \<open>x > 0\<close>: \<open>2 ^ e \<le> x < 2 ^ (e + 1)\<close>.\<close>

definition ilog2 :: "rat \<Rightarrow> int" where
  "ilog2 x =
     (if 1 \<le> x then int (bit_length (nat \<lfloor>x\<rfloor>)) - 1
      else - int (bit_length (nat (\<lceil>1 / x\<rceil> - 1))))"

definition round_half_even :: "rat \<Rightarrow> int" where
  "round_half_even y =
     (let f = \<lfloor>y\<rfloor>; d = y - of_int f
      in if d < 1 / 2 then f else if 1 / 2 < d then f + 1 else if even f then f else f + 1)"

definition f32_round :: "rat \<Rightarrow> rat" where
  "f32_round x =
     (if x = 0 then 0
      else let u = pow2 (ilog2 \<bar>x\<bar> - 23)
           in sgn x * of_int (round_half_even (\<bar>x\<bar> / u)) * u)"

text \<open>\<^verbatim>\<open>(float)n\<close>, \<^verbatim>\<open>a / b\<close> and \<^verbatim>\<open>a * b\<close> on floats, and \<^verbatim>\<open>(int)x\<close>, which truncates
  towards zero and is undefined when the truncated value is not an \<^verbatim>\<open>int\<close>.\<close>

definition i2f :: "int \<Rightarrow> rat" where
  "i2f n = f32_round (of_int n)"

definition f32_div :: "rat \<Rightarrow> rat \<Rightarrow> rat" where
  "f32_div a b = f32_round (a / b)"

definition f32_mul :: "rat \<Rightarrow> rat \<Rightarrow> rat" where
  "f32_mul a b = f32_round (a * b)"

definition f2i :: "rat \<Rightarrow> int option" where
  "f2i x =
     (let t = (if 0 \<le> x then \<lfloor>x\<rfloor> else \<lceil>x\<rceil>)
      in if - (2 ^ 31) \<le> t \<and> t < 2 ^ 31 then Some t else None)"

section \<open>image-processor.c\<close>

subsection \<open>process_image\<close>

text \<open>
  \<^verbatim>\<open>compression_factor = (100 - quality) / 10;\<close>
  \<^verbatim>\<open>processed_size = input_size - (input_size * compression_factor / 100);\<close>
\<close>

definition process_image_size :: "int \<Rightarrow> int \<Rightarrow> int" where
  "process_image_size input_size quality =
     (let compression_factor = cdiv (s32 (100 - quality)) 10
      in s32 (input_size - cdiv (s32 (input_size * compression_factor)) 100))"

text \<open>The byte stored for format 0 (JPEG), 1 (PNG) and 2 (WEBP); the store to
  \<^verbatim>\<open>unsigned char\<close> keeps the low eight bits.\<close>

definition process_image_byte :: "int \<Rightarrow> int \<Rightarrow> byte \<Rightarrow> byte" where
  "process_image_byte quality format b =
     (if format = 0 then word_of_int (cdiv (s32 (uint b * quality)) 100)
      else if format = 1 then b
      else word_of_int (cdiv (s32 (uint b * s32 (quality + 20))) 120))"

function process_image_loop ::
  "byte list \<Rightarrow> int \<Rightarrow> int \<Rightarrow> int \<Rightarrow> int \<Rightarrow> int \<Rightarrow> byte list \<Rightarrow> c_fault + byte list" where
  "process_image_loop input_data input_size processed_size quality format i output_data =
     (if i < processed_size \<and> i < input_size then
        (if format = 0 \<or> format = 1 \<or> format = 2 then
           (case rd input_data i of
              Inl e \<Rightarrow> Inl e
            | Inr b \<Rightarrow>
                (case wr output_data i (process_image_byte quality format b) of
                   Inl e \<Rightarrow> Inl e
                 | Inr out' \<Rightarrow>
                     process_image_loop input_data input_size processed_size quality format
                       (i + 1) out'))
         else process_image_loop input_data input_size processed_size quality format
                (i + 1) output_data)
      else Inr output_data)"
  by pat_completeness auto
termination
  by (relation "measure (\<lambda>(inp, input_size, ps, q, f, i, out). nat (input_size - i))") auto

declare process_image_loop.simps [simp del]

definition process_image ::
  "byte ptr \<Rightarrow> int \<Rightarrow> byte ptr \<Rightarrow> int \<Rightarrow> int \<Rightarrow> int \<Rightarrow> c_fault + (int \<times> byte ptr)" where
  "process_image input_data input_size output_data output_size quality format =
     (case (input_data, output_data) of
        (Buf inp, Buf out) \<Rightarrow>
          if input_size \<le> 0 \<or> output_size \<le> 0 then Inr (- 1, output_data)
          else
            let ps = process_image_size input_size quality;
                processed_size = (if ps > output_size then output_size else ps)
            in (case process_image_loop inp input_size processed_size quality format 0 out of
                  Inl e \<Rightarrow> Inl e
                | Inr out' \<Rightarrow> Inr (processed_size, Buf out'))
      | _ \<Rightarrow> Inr (- 1, output_data))"

subsection \<open>compress_image\<close>

text \<open>
  \<^verbatim>\<open>float compression_ratio = (float)quality / 100.0f;\<close>
  \<^verbatim>\<open>int target_size = (int)(input_size * compression_ratio);\<close>
  The same two lines open \<^verbatim>\<open>compress_audio\<close>.
\<close>

definition float_target_size :: "int \<Rightarrow> int \<Rightarrow> int option" where
  "float_target_size input_size quality =
     (let compression_ratio = f32_div (i2f quality) 100
      in f2i (f32_mul (i2f input_size) compression_ratio))"

text \<open>\<^verbatim>\<open>int step = input_size / target_size; if (step < 1) step = 1;\<close> (the caller has
  checked that \<open>target_size\<close> is not 0).\<close>

definition compression_step :: "int \<Rightarrow> int \<Rightarrow> int" where
  "compression_step input_size target_sz =
     (let step = cdiv input_size target_sz in if step < 1 then 1 else step)"

function compress_image_loop ::
  "byte list \<Rightarrow> int \<Rightarrow> int \<Rightarrow> int \<Rightarrow> int \<Rightarrow> int \<Rightarrow> byte list \<Rightarrow> c_fault + byte list" where
  "compress_image_loop input_data input_size target_sz step i j output_data =
     (if i < input_size \<and> j < target_sz then
        (case rd input_data i of
           Inl e \<Rightarrow> Inl e
         | Inr b \<Rightarrow>
             (case wr output_data j b of
                Inl e \<Rightarrow> Inl e
              | Inr out' \<Rightarrow>
                  compress_image_loop input_data input_size target_sz step
                    (s32 (i + step)) (j + 1) out'))
      else Inr output_data)"
  by pat_completeness auto
termination
  by (relation "measure (\<lambda>(inp, input_size, ts, step, i, j, out). nat (ts - j))") auto

declare compress_image_loop.simps [simp del]

definition compress_image ::
  "byte ptr \<Rightarrow> int \<Rightarrow> byte ptr \<Rightarrow> int \<Rightarrow> int \<Rightarrow> c_fault + (int \<times> byte ptr)" where
  "compress_image input_data input_size output_data output_size quality =
     (case (input_data, output_data) of
        (Buf inp, Buf out) \<Rightarrow>
          if input_size \<le> 0 \<or> output_size \<le> 0 then Inr (- 1, output_data)
          else
            (case float_target_size input_size quality of
               None \<Rightarrow> Inl FloatToIntRange
             | Some ts \<Rightarrow>
                 let target_sz = (if ts > output_size then output_size else ts)
                 in if target_sz = 0 then Inl DivByZero
                    else
                      let step = compression_step input_size target_sz
                      in (case compress_image_loop inp input_size target_sz step 0 0 out of
                            Inl e \<Rightarrow> Inl e
                          | Inr out' \<Rightarrow> Inr (target_sz, Buf out')))
      | _ \<Rightarrow> Inr (- 1, output_data))"

subsection \<open>resize_image\<close>

text \<open>
  \<^verbatim>\<open>int src_x = (int)(x * x_ratio); if (src_x >= input_width) src_x = input_width - 1;\<close>
  and the same for \<open>y\<close>: the product is a float product of \<^verbatim>\<open>(float)x\<close> and the ratio,
  and only the upper end is clamped.
\<close>

definition src_coord :: "int \<Rightarrow> rat \<Rightarrow> int \<Rightarrow> c_fault + int" where
  "src_coord x ratio input_extent =
     (case f2i (f32_mul (i2f x) ratio) of
        None \<Rightarrow> Inl FloatToIntRange
      | Some s \<Rightarrow> Inr (if s \<ge> input_extent then input_extent - 1 else s))"

text \<open>
  The innermost loop copies the \<open>channels\<close> bytes of one pixel. \<open>in_base\<close> and \<open>out_base\<close>
  are the offsets of the frame within the two buffers: 0 in \<^verbatim>\<open>resize_image\<close>,
  \<^verbatim>\<open>frame * frame_size\<close> in \<^verbatim>\<open>resize_video_frames\<close>, whose loop nest is the same text
  with \<open>channels = 3\<close>.
\<close>

function copy_pixel ::
  "byte list \<Rightarrow> int \<Rightarrow> int \<Rightarrow> int \<Rightarrow> int \<Rightarrow> byte list \<Rightarrow> c_fault + byte list" where
  "copy_pixel input_data src dst channels c output_data =
     (if c < channels then
        (case rd input_data (src + c) of
           Inl e \<Rightarrow> Inl e
         | Inr b \<Rightarrow>
             (case wr output_data (dst + c) b of
                Inl e \<Rightarrow> Inl e
              | Inr out' \<Rightarrow> copy_pixel input_data src dst channels (c + 1) out'))
      else Inr output_data)"
  by pat_completeness auto
termination
  by (relation "measure (\<lambda>(inp, src, dst, ch, c, out). nat (ch - c))") auto

declare copy_pixel.simps [simp del]

record geometry =
  input_width :: int
  input_height :: int
  output_width :: int
  output_height :: int
  channels :: int
  x_ratio :: rat
  y_ratio :: rat
  in_base :: int
  out_base :: int

text \<open>\<^verbatim>\<open>(row * width + col) * channels\<close> in 32-bit arithmetic.\<close>

definition pixel_index :: "int \<Rightarrow> int \<Rightarrow> int \<Rightarrow> int \<Rightarrow> int" where
  "pixel_index row width col chans = s32 (s32 (s32 (row * width) + col) * chans)"

text \<open>
  The head of the loop body for output pixel \<open>(x, y)\<close>: the offsets of the source pixel and
  of the destination pixel within the two buffers.
\<close>

definition pixel_offsets :: "geometry \<Rightarrow> int \<Rightarrow> int \<Rightarrow> c_fault + (int \<times> int)" where
  "pixel_offsets g x y =
     (case src_coord x (x_ratio g) (input_width g) of
        Inl e \<Rightarrow> Inl e
      | Inr src_x \<Rightarrow>
          (case src_coord y (y_ratio g) (input_height g) of
             Inl e \<Rightarrow> Inl e
           | Inr src_y \<Rightarrow>
               let src_index = pixel_index src_y (input_width g) src_x (channels g);
                   dst_index = pixel_index y (output_width g) x (channels g)
               in Inr (in_base g + src_index, out_base g + dst_index)))"

function resize_row :: "geometry \<Rightarrow> byte list \<Rightarrow> int \<Rightarrow> int \<Rightarrow> byte list \<Rightarrow> c_fault + byte list" where
  "resize_row g input_data y x output_data =
     (if x < output_width g then
        (case pixel_offsets g x y of
           Inl e \<Rightarrow> Inl e
         | Inr (src, dst) \<Rightarrow>
             (case copy_pixel input_data src dst (channels g) 0 output_data of
                Inl e \<Rightarrow> Inl e
              | Inr out' \<Rightarrow> resize_row g input_data y (x + 1) out'))
      else Inr output_data)"
  by pat_completeness auto
termination
  by (relation "measure (\<lambda>(g, inp, y, x, out). nat (output_width g - x))") auto

declare resize_row.simps [simp del]

function resize_rows :: "geometry \<Rightarrow> byte list \<Rightarrow> int \<Rightarrow> byte list \<Rightarrow> c_fault + byte list" where
  "resize_rows g input_data y output_data =
     (if y < output_height g then
        (case resize_row g input_data y 0 output_data of
           Inl e \<Rightarrow> Inl e
         | Inr out' \<Rightarrow> resize_rows g input_data (y + 1) out')
      else Inr output_data)"
  by pat_completeness auto
termination
  by (relation "measure (\<lambda>(g, inp, y, out). nat (output_height g - y))") auto

declare resize_rows.simps [simp del]

definition resize_image ::
  "byte ptr \<Rightarrow> int \<Rightarrow> int \<Rightarrow> byte ptr \<Rightarrow> int \<Rightarrow> int \<Rightarrow> int \<Rightarrow> c_fault + (int \<times> byte ptr)" where
  "resize_image input_data iw ih output_data ow oh chans =
     (case (input_data, output_data) of
        (Buf inp, Buf out) \<Rightarrow>
          if iw \<le> 0 \<or> ih \<le> 0 \<or> ow \<le> 0 \<or> oh \<le> 0 \<or> chans \<le> 0 then Inr (- 1, output_data)
          else
            let g = \<lparr>input_width = iw, input_height = ih, output_width = ow,
                     output_height = oh, channels = chans,
                     x_ratio = f32_div (i2f iw) (i2f ow), y_ratio = f32_div (i2f ih) (i2f oh),
                     in_base = 0, out_base = 0\<rparr>
            in (case resize_rows g inp 0 out of
                  Inl e \<Rightarrow> Inl e
                | Inr out' \<Rightarrow> Inr (0, Buf out'))
      | _ \<Rightarrow> Inr (- 1, output_data))"

section \<open>video-processor.c\<close>

subsection \<open>resize_video_frames\<close>

function resize_frames ::
  "geometry \<Rightarrow> byte list \<Rightarrow> int \<Rightarrow> int \<Rightarrow> int \<Rightarrow> int \<Rightarrow> byte list \<Rightarrow> c_fault + byte list" where
  "resize_frames g input_data input_frame_size output_frame_size num_frames frame output_data =
     (if frame < num_frames then
        (case resize_rows
                (g\<lparr>in_base := s32 (frame * input_frame_size),
                   out_base := s32 (frame * output_frame_size)\<rparr>)
                input_data 0 output_data of
           Inl e \<Rightarrow> Inl e
         | Inr out' \<Rightarrow>
             resize_frames g input_data input_frame_size output_frame_size num_frames
               (frame + 1) out')
      else Inr output_data)"
  by pat_completeness auto
termination
  by (relation "measure (\<lambda>(g, inp, ifs, ofs, n, frame, out). nat (n - frame))") auto

declare resize_frames.simps [simp del]

definition resize_video_frames ::
  "byte ptr \<Rightarrow> int \<Rightarrow> int \<Rightarrow> byte ptr \<Rightarrow> int \<Rightarrow> int \<Rightarrow> int \<Rightarrow> c_fault + (int \<times> byte ptr)" where
  "resize_video_frames input_data iw ih output_data ow oh num_frames =
     (case (input_data, output_data) of
        (Buf inp, Buf out) \<Rightarrow>
          if iw \<le> 0 \<or> ih \<le> 0 \<or> ow \<le> 0 \<or> oh \<le> 0 \<or> num_frames \<le> 0 then Inr (- 1, output_data)
          else
            let input_frame_size = s32 (s32 (iw * ih) * 3);
                output_frame_size = s32 (s32 (ow * oh) * 3);
                g = \<lparr>input_width = iw, input_height = ih, output_width = ow,
                     output_height = oh, channels = 3,
                     x_ratio = f32_div (i2f iw) (i2f ow), y_ratio = f32_div (i2f ih) (i2f oh),
                     in_base = 0, out_base = 0\<rparr>
            in (case resize_frames g inp input_frame_size output_frame_size num_frames 0 out of
                  Inl e \<Rightarrow> Inl e
                | Inr out' \<Rightarrow> Inr (0, Buf out'))
      | _ \<Rightarrow> Inr (- 1, output_data))"

subsection \<open>Well-formed resize calls\<close>

text \<open>
  When a resize call is well-formed: positive dimensions, input dimensions below \<open>2 ^ 26\<close>
  (so that a float coordinate fits an \<^verbatim>\<open>int\<close>), the ratios as the functions compute them,
  and both frames inside their buffers, whose lengths are \<open>in_len\<close> and \<open>out_len\<close>, at
  offsets that fit an \<^verbatim>\<open>int\<close>.
\<close>

definition valid_geometry :: "geometry \<Rightarrow> nat \<Rightarrow> nat \<Rightarrow> bool" where
  "valid_geometry g in_len out_len \<longleftrightarrow>
     0 < input_width g \<and> input_width g < 2 ^ 26 \<and> 0 < input_height g \<and> input_height g < 2 ^ 26 \<and>
     0 < output_width g \<and> 0 < output_height g \<and> 0 < channels g \<and>
     x_ratio g = f32_div (i2f (input_width g)) (i2f (output_width g)) \<and>
     y_ratio g = f32_div (i2f (input_height g)) (i2f (output_height g)) \<and>
     input_width g * input_height g * channels g < 2 ^ 31 \<and>
     output_width g * output_height g * channels g < 2 ^ 31 \<and>
     0 \<le> in_base g \<and>
     in_base g + input_width g * input_height g * channels g \<le> int in_len \<and>
     0 \<le> out_base g \<and>
     out_base g + output_width g * output_height g * channels g \<le> int out_len"

text \<open>
  The offsets for output pixel \<open>(x, y)\<close> as plain integers: where the pixel lies in the
  output buffer, and where the loop body reads its source pixel.
\<close>

definition dst_offset :: "geometry \<Rightarrow> int \<Rightarrow> int \<Rightarrow> int" where
  "dst_offset g x y = out_base g + (y * output_width g + x) * channels g"

definition src_offset :: "geometry \<Rightarrow> int \<Rightarrow> int \<Rightarrow> int" where
  "src_offset g x y = (case pixel_offsets g x y of Inr (src, dst) \<Rightarrow> src | Inl e \<Rightarrow> 0)"

section \<open>audio-processor.c\<close>

subsection \<open>compress_audio\<close>

text \<open>
  The inner loop
  \<^verbatim>\<open>for (int k = 0; k < step && (i + k) < input_size; k++) { sum += input_data[i + k]; count++; }\<close>
  returns \<open>(sum, count)\<close> (\<open>acc\<close> and \<open>cnt\<close> below).
\<close>

function audio_window ::
  "byte list \<Rightarrow> int \<Rightarrow> int \<Rightarrow> int \<Rightarrow> int \<Rightarrow> int \<Rightarrow> int \<Rightarrow> c_fault + (int \<times> int)" where
  "audio_window input_data input_size step i k acc cnt =
     (if k < step \<and> s32 (i + k) < input_size then
        (case rd input_data (s32 (i + k)) of
           Inl e \<Rightarrow> Inl e
         | Inr b \<Rightarrow>
             audio_window input_data input_size step i (k + 1) (s32 (acc + uint b)) (cnt + 1))
      else Inr (acc, cnt))"
  by pat_completeness auto
termination
  by (relation "measure (\<lambda>(inp, input_size, step, i, k, acc, cnt). nat (step - k))") auto

declare audio_window.simps [simp del]

text \<open>
  The mean that the claim about \<^verbatim>\<open>compress_audio\<close> speaks of, before any rounding: the sum
  of the \<open>step\<close> samples of window \<open>j\<close> divided by \<open>step\<close>, rounded down.
\<close>

definition window_mean :: "byte list \<Rightarrow> int \<Rightarrow> int \<Rightarrow> int" where
  "window_mean input_data step j =
     sum_list (map uint (take (nat step) (drop (nat (j * step)) input_data))) div step"

function compress_audio_loop ::
  "byte list \<Rightarrow> int \<Rightarrow> int \<Rightarrow> int \<Rightarrow> int \<Rightarrow> int \<Rightarrow> byte list \<Rightarrow> c_fault + byte list" where
  "compress_audio_loop input_data input_size target_sz step i j output_data =
     (if i < input_size \<and> j < target_sz then
        (case audio_window input_data input_size step i 0 0 0 of
           Inl e \<Rightarrow> Inl e
         | Inr (acc, cnt) \<Rightarrow>
             if cnt = 0 then Inl DivByZero
             else
               (case wr output_data j (word_of_int (cdiv acc cnt)) of
                  Inl e \<Rightarrow> Inl e
                | Inr out' \<Rightarrow>
                    compress_audio_loop input_data input_size target_sz step
                      (s32 (i + step)) (j + 1) out'))
      else Inr output_data)"
  by pat_completeness auto
termination
  by (relation "measure (\<lambda>(inp, input_size, ts, step, i, j, out). nat (ts - j))") auto

declare compress_audio_loop.simps [simp del]

definition compress_audio ::
  "byte ptr \<Rightarrow> int \<Rightarrow> byte ptr \<Rightarrow> int \<Rightarrow> int \<Rightarrow> c_fault + (int \<times> byte ptr)" where
  "compress_audio input_data input_size output_data output_size quality =
     (case (input_data, output_data) of
        (Buf inp, Buf out) \<Rightarrow>
          if input_size \<le> 0 \<or> output_size \<le> 0 then Inr (- 1, output_data)
          else
            (case float_target_size input_size quality of
               None \<Rightarrow> Inl FloatToIntRange
             | Some ts \<Rightarrow>
                 let target_sz = (if ts > output_size then output_size else ts)
                 in if target_sz = 0 then Inl DivByZero
                    else
                      let step = compression_step input_size target_sz
                      in (case compress_audio_loop inp input_size target_sz step 0 0 out of
                            Inl e \<Rightarrow> Inl e
                          | Inr out' \<Rightarrow> Inr (target_sz, Buf out')))
      | _ \<Rightarrow> Inr (- 1, output_data))"

section \<open>pdf-processor.c\<close>

subsection \<open>merge_pdfs\<close>

text \<open>The string constants \<^verbatim>\<open>"%PDF-1.4\n"\<close>, \<^verbatim>\<open>"\n%%EOF\n"\<close> and \<^verbatim>\<open>"%PDF-"\<close>.\<close>

definition pdf_header :: "byte list" where
  "pdf_header = [0x25, 0x50, 0x44, 0x46, 0x2D, 0x31, 0x2E, 0x34, 0x0A]"

definition pdf_footer :: "byte list" where
  "pdf_footer = [0x0A, 0x25, 0x25, 0x45, 0x4F, 0x46, 0x0A]"

definition pdf_magic :: "byte list" where
  "pdf_magic = [0x25, 0x50, 0x44, 0x46, 0x2D]"

function sum_file_sizes :: "int list \<Rightarrow> int \<Rightarrow> int \<Rightarrow> int \<Rightarrow> c_fault + int" where
  "sum_file_sizes file_sizes num_files i total_size =
     (if i < num_files then
        (case rd file_sizes i of
           Inl e \<Rightarrow> Inl e
         | Inr sz \<Rightarrow> sum_file_sizes file_sizes num_files (i + 1) (s32 (total_size + sz)))
      else Inr total_size)"
  by pat_completeness auto
termination
  by (relation "measure (\<lambda>(fs, n, i, t). nat (n - i))") auto

declare sum_file_sizes.simps [simp del]

text \<open>
  \<^verbatim>\<open>skip_header\<close> for file \<open>i\<close> of declared size \<open>sz\<close>: 8 when the file is not the first,
  is longer than 8 bytes and starts with \<^verbatim>\<open>%PDF-\<close>.
\<close>

definition skip_header_of :: "int \<Rightarrow> int \<Rightarrow> byte list \<Rightarrow> c_fault + int" where
  "skip_header_of i sz src =
     (if i > 0 \<and> sz > 8 then
        (if length src < 5 then Inl OutOfBounds
         else Inr (if take 5 src = pdf_magic then 8 else 0))
      else Inr 0)"

function merge_pdfs_loop ::
  "byte ptr list \<Rightarrow> int list \<Rightarrow> int \<Rightarrow> int \<Rightarrow> int \<Rightarrow> int \<Rightarrow> byte list \<Rightarrow>
   c_fault + (int \<times> byte list)" where
  "merge_pdfs_loop pdf_files file_sizes num_files output_size i offset output_data =
     (if i < num_files then
        (case rd pdf_files i of
           Inl e \<Rightarrow> Inl e
         | Inr NULL \<Rightarrow>
             merge_pdfs_loop pdf_files file_sizes num_files output_size (i + 1) offset output_data
         | Inr (Buf src) \<Rightarrow>
             (case rd file_sizes i of
                Inl e \<Rightarrow> Inl e
              | Inr sz \<Rightarrow>
                  if sz > 0 then
                    (case skip_header_of i sz src of
                       Inl e \<Rightarrow> Inl e
                     | Inr skip_header \<Rightarrow>
                         let copy_size = sz - skip_header
                         in if s32 (offset + copy_size) < output_size then
                              (case memcpy output_data offset src skip_header copy_size of
                                 Inl e \<Rightarrow> Inl e
                               | Inr out' \<Rightarrow>
                                   merge_pdfs_loop pdf_files file_sizes num_files output_size
                                     (i + 1) (s32 (offset + copy_size)) out')
                            else merge_pdfs_loop pdf_files file_sizes num_files output_size
                                   (i + 1) offset output_data)
                  else merge_pdfs_loop pdf_files file_sizes num_files output_size
                         (i + 1) offset output_data))
      else Inr (offset, output_data))"
  by pat_completeness auto
termination
  by (relation "measure (\<lambda>(fs, szs, n, osz, i, off, out). nat (n - i))") auto

declare merge_pdfs_loop.simps [simp del]

text \<open>A fixed string is copied only if it fits strictly below \<open>output_size\<close>.\<close>

definition put_if_fits :: "byte list \<Rightarrow> int \<Rightarrow> int \<Rightarrow> byte list \<Rightarrow> c_fault + (int \<times> byte list)" where
  "put_if_fits str output_size offset output_data =
     (if offset + int (length str) < output_size then
        (case memcpy output_data offset str 0 (int (length str)) of
           Inl e \<Rightarrow> Inl e
         | Inr out' \<Rightarrow> Inr (offset + int (length str), out'))
      else Inr (offset, output_data))"

definition merge_pdfs ::
  "byte ptr ptr \<Rightarrow> int ptr \<Rightarrow> int \<Rightarrow> byte ptr \<Rightarrow> int \<Rightarrow> c_fault + (int \<times> byte ptr)" where
  "merge_pdfs pdf_files file_sizes num_files output_data output_size =
     (case (pdf_files, file_sizes, output_data) of
        (Buf files, Buf sizes, Buf out) \<Rightarrow>
          if num_files \<le> 0 \<or> output_size \<le> 0 then Inr (- 1, output_data)
          else
            (case sum_file_sizes sizes num_files 0 0 of
               Inl e \<Rightarrow> Inl e
             | Inr total_size \<Rightarrow>
                 if total_size > output_size then Inr (- 1, output_data)
                 else
                   (case put_if_fits pdf_header output_size 0 out of
                      Inl e \<Rightarrow> Inl e
                    | Inr (offset1, out1) \<Rightarrow>
                        (case merge_pdfs_loop files sizes num_files output_size 0 offset1 out1 of
                           Inl e \<Rightarrow> Inl e
                         | Inr (offset2, out2) \<Rightarrow>
                             (case put_if_fits pdf_footer output_size offset2 out2 of
                                Inl e \<Rightarrow> Inl e
                              | Inr (offset3, out3) \<Rightarrow> Inr (offset3, Buf out3)))))
      | _ \<Rightarrow> Inr (- 1, output_data))"

subsection \<open>extract_text\<close>











section \<open>JavaScript numbers and the compression ratio\<close>

text \<open>
  A JavaScript number is a finite value, \<^verbatim>\<open>NaN\<close> or an infinity. Finite values are kept
  exact (rationals): sizes are integers, and the rounding of doubles is not modelled.
  \<^verbatim>\<open>a / b\<close> on integers does not throw when \<open>b\<close> is 0.
\<close>

datatype jsnum = Finite rat | NaN | PosInfinity | NegInfinity

definition js_div :: "int \<Rightarrow> int \<Rightarrow> jsnum" where
  "js_div a b =
     (if b = 0 then (if a = 0 then NaN else if 0 < a then PosInfinity else NegInfinity)
      else Finite (of_int a / of_int b))"

text \<open>Multiplication by a positive finite constant.\<close>

definition js_scale :: "jsnum \<Rightarrow> rat \<Rightarrow> jsnum" where
  "js_scale v k = (case v of Finite r \<Rightarrow> Finite (r * k) | other \<Rightarrow> other)"

text \<open>
  \<^verbatim>\<open>toFixed(2)\<close> rounds to two decimals, a tie away from zero; the result is a string
  (\<^verbatim>\<open>"NaN"\<close>, \<^verbatim>\<open>"-Infinity"\<close> for the other values), which the backend converters parse
  back with \<^verbatim>\<open>parseFloat\<close>. The model keeps the number the string denotes.
\<close>

definition round2 :: "rat \<Rightarrow> rat" where
  "round2 r = sgn r * of_int \<lfloor>\<bar>r\<bar> * 100 + 1 / 2\<rfloor> / 100"

definition toFixed2 :: "jsnum \<Rightarrow> jsnum" where
  "toFixed2 v = (case v of Finite r \<Rightarrow> Finite (round2 r) | other \<Rightarrow> other)"

text \<open>
  \<^verbatim>\<open>((originalSize - compressedSize) / originalSize * 100).toFixed(2)\<close>: the expression of
  \<^verbatim>\<open>ImageConverter.convert\<close> (and of every other backend converter) and, with
  \<^verbatim>\<open>file.size\<close> and \<^verbatim>\<open>processedData.length\<close>, of \<^verbatim>\<open>OfflineProcessor.processImage\<close>.
\<close>

definition compression_ratio :: "int \<Rightarrow> int \<Rightarrow> jsnum" where
  "compression_ratio original compressed =
     toFixed2 (js_scale (js_div (original - compressed) original) 100)"

record convert_result =
  originalSize :: int
  compressedSize :: int
  compressionRatio :: jsnum

section \<open>ConversionService.js and the backend /api/convert route\<close>










section \<open>OfflineProcessor (theme.js)\<close>

text \<open>
  What the processor does to the outside is kept in a trace: the values handed to
  \<^verbatim>\<open>onProgress\<close>, in order, and the data handed to \<^verbatim>\<open>FileSystem.writeAsStringAsync\<close>.
  The file system and pdf-lib are parameters: reading a file gives its bytes or rejects
  with a message, \<^verbatim>\<open>PDFDocument.load\<close> gives the pages of a document or throws, saving a
  document gives bytes, and a write succeeds (\<open>None\<close>) or rejects.
\<close>

record trace =
  progress :: "rat list"
  written :: "byte list list"

definition no_trace :: trace where
  "no_trace = \<lparr>progress = [], written = []\<rparr>"

definition emit :: "rat \<Rightarrow> trace \<Rightarrow> trace" where
  "emit p t = t\<lparr>progress := progress t @ [p]\<rparr>"

definition wrote :: "byte list \<Rightarrow> trace \<Rightarrow> trace" where
  "wrote d t = t\<lparr>written := written t @ [d]\<rparr>"

record 'p env =
  readFile :: "string \<Rightarrow> string + byte list"
  loadPdf :: "byte list \<Rightarrow> string + 'p list"
  savePdf :: "'p list \<Rightarrow> byte list"
  writeFile :: "byte list \<Rightarrow> string option"

text \<open>The file object of the picker: \<^verbatim>\<open>file.uri\<close>, \<^verbatim>\<open>file.name\<close>, \<^verbatim>\<open>file.size\<close>.\<close>

record file_object =
  file_uri :: string
  file_name :: string
  file_size :: int

definition to_lower_char :: "char \<Rightarrow> char" where
  "to_lower_char c =
     (if (65::nat) \<le> of_char c \<and> of_char c \<le> (90::nat) then char_of (of_char c + (32::nat)) else c)"

definition toLowerCase :: "string \<Rightarrow> string" where
  "toLowerCase s = map to_lower_char s"

subsection \<open>processImage\<close>

text \<open>\<^verbatim>\<open>convertToJpeg\<close>, \<^verbatim>\<open>convertToPng\<close> and \<^verbatim>\<open>convertToWebp\<close> return the buffer.\<close>

definition processImage :: "'p env \<Rightarrow> file_object \<Rightarrow> string \<Rightarrow> (string + convert_result) \<times> trace" where
  "processImage env f targetFormat =
     (let t1 = emit 10 no_trace
      in case readFile env (file_uri f) of
           Inl msg \<Rightarrow> (Inl (''Image processing failed: '' @ msg), t1)
         | Inr buffer \<Rightarrow>
             let t2 = emit 50 (emit 30 t1)
             in if toLowerCase targetFormat \<in> {''jpg'', ''jpeg'', ''png'', ''webp''} then
                  let processedData = buffer;
                      t3 = emit 80 t2
                  in (case writeFile env processedData of
                        Some msg \<Rightarrow> (Inl (''Image processing failed: '' @ msg), t3)
                      | None \<Rightarrow>
                          (Inr \<lparr>originalSize = file_size f,
                                compressedSize = int (length processedData),
                                compressionRatio =
                                  compression_ratio (file_size f) (int (length processedData))\<rparr>,
                           emit 100 (wrote processedData t3)))
                else (Inl (''Image processing failed: Unsupported target format: '' @ targetFormat),
                      t2))"

subsection \<open>mergeFiles\<close>

text \<open>
  The reading loop \<^verbatim>\<open>for (let i = 0; i < files.length; i++)\<close>: \<open>n\<close> is \<^verbatim>\<open>files.length\<close>,
  \<open>i\<close> the index of the head of the remaining files.
\<close>

fun read_buffers ::
  "'p env \<Rightarrow> file_object list \<Rightarrow> nat \<Rightarrow> nat \<Rightarrow> byte list list \<Rightarrow> trace \<Rightarrow>
   (string + byte list list) \<times> trace" where
  "read_buffers env [] n i buffers t = (Inr buffers, t)"
| "read_buffers env (f # fs) n i buffers t =
     (case readFile env (file_uri f) of
        Inl msg \<Rightarrow> (Inl msg, t)
      | Inr b \<Rightarrow>
          read_buffers env fs n (Suc i) (buffers @ [b])
            (emit (10 + (of_nat i + 1) * 30 / of_nat n) t))"

text \<open>\<^verbatim>\<open>mergePdfsFallback\<close>: every page of every buffer, in turn, is added to the new
  document.\<close>

fun copy_all_pages :: "'p env \<Rightarrow> byte list list \<Rightarrow> 'p list \<Rightarrow> string + 'p list" where
  "copy_all_pages env [] mergedPdf = Inr mergedPdf"
| "copy_all_pages env (buffer # buffers) mergedPdf =
     (case loadPdf env buffer of
        Inl msg \<Rightarrow> Inl msg
      | Inr pages \<Rightarrow> copy_all_pages env buffers (mergedPdf @ pages))"

definition mergePdfsFallback :: "'p env \<Rightarrow> byte list list \<Rightarrow> string + 'p list" where
  "mergePdfsFallback env buffers =
     (case copy_all_pages env buffers [] of
        Inl msg \<Rightarrow> Inl (''PDF merge failed: '' @ msg)
      | Inr mergedPdf \<Rightarrow> Inr mergedPdf)"

definition mergeAudioFallback :: "byte list list \<Rightarrow> byte list" where
  "mergeAudioFallback buffers = concat buffers"

definition mergeVideoFallback :: "byte list list \<Rightarrow> byte list" where
  "mergeVideoFallback buffers = concat buffers"

record merge_result =
  mergedData :: "byte list"
  totalSize :: int
  fileCount :: nat

definition merge_by_format :: "'p env \<Rightarrow> byte list list \<Rightarrow> string \<Rightarrow> string + byte list" where
  "merge_by_format env buffers outputFormat =
     (let fmt = toLowerCase outputFormat
      in if fmt = ''pdf'' then
           (case mergePdfsFallback env buffers of
              Inl msg \<Rightarrow> Inl msg
            | Inr mergedPdf \<Rightarrow> Inr (savePdf env mergedPdf))
         else if fmt \<in> {''mp3'', ''wav'', ''aac''} then Inr (mergeAudioFallback buffers)
         else if fmt \<in> {''mp4'', ''mov'', ''avi'', ''mkv''} then Inr (mergeVideoFallback buffers)
         else Inl (''Unsupported merge format: '' @ outputFormat))"

definition mergeFiles :: "'p env \<Rightarrow> file_object list \<Rightarrow> string \<Rightarrow> (string + merge_result) \<times> trace" where
  "mergeFiles env files outputFormat =
     (case read_buffers env files (length files) 0 [] (emit 10 no_trace) of
        (Inl msg, t1) \<Rightarrow> (Inl (''File merge failed: '' @ msg), t1)
      | (Inr buffers, t1) \<Rightarrow>
          let t2 = emit 70 t1
          in (case merge_by_format env buffers outputFormat of
                Inl msg \<Rightarrow> (Inl (''File merge failed: '' @ msg), t2)
              | Inr merged \<Rightarrow>
                  let t3 = emit 90 t2
                  in (case writeFile env merged of
                        Some msg \<Rightarrow> (Inl (''File merge failed: '' @ msg), t3)
                      | None \<Rightarrow>
                          (Inr \<lparr>mergedData = merged, totalSize = int (length merged),
                                fileCount = length files\<rparr>,
                           emit 100 (wrote merged t3)))))"

subsection \<open>A concrete environment\<close>



section \<open>Properties of the conversion service\<close>



section \<open>Properties of the offline processor\<close>

subsection \<open>Merging\<close>














subsection \<open>Progress events\<close>

lemma progress_emit: "progress (emit p t) = progress t @ [p]"
  by (simp add: emit_def)

lemma progress_wrote: "progress (wrote d t) = progress t"
  by (simp add: wrote_def)

lemma read_buffers_progress:
  assumes "sorted (progress t)"
    and "\<forall>p \<in> set (progress t). p \<le> 10 + of_nat i * 30 / of_nat n"
    and "i + length fs \<le> n"
  shows "sorted (progress (snd (read_buffers env fs n i bufs t))) \<and>
         (\<forall>p \<in> set (progress (snd (read_buffers env fs n i bufs t))). p \<le> 40)"
  using assms
proof (induction fs arbitrary: i bufs t)
  case Nil
  have "(10::rat) + of_nat i * 30 / of_nat n \<le> 40"
  proof (cases "n = 0")
    case True
    then show ?thesis by simp
  next
    case False
    with Nil.prems(3) have "(of_nat i :: rat) \<le> of_nat n" "(0::rat) < of_nat n" by simp_all
    then have "(of_nat i :: rat) * 30 / of_nat n \<le> 30"
      by (simp add: pos_divide_le_eq)
    then show ?thesis by simp
  qed
  with Nil.prems show ?case by fastforce
next
  case (Cons f fs)
  show ?case
  proof (cases "readFile env (file_uri f)")
    case (Inl msg)
    have "(10::rat) + of_nat i * 30 / of_nat n \<le> 40"
    proof -
      from Cons.prems(3) have "(of_nat i :: rat) \<le> of_nat n" "(0::rat) < of_nat n" by simp_all
      then have "(of_nat i :: rat) * 30 / of_nat n \<le> 30"
        by (simp add: pos_divide_le_eq)
      then show ?thesis by simp
    qed
    with Inl Cons.prems show ?thesis by fastforce
  next
    case (Inr b)
    let ?v = "10 + (of_nat i + 1) * 30 / of_nat n :: rat"
    let ?t = "emit ?v t"
    from Cons.prems(3) have npos: "(0::rat) < of_nat n" by simp
    have step: "(10::rat) + of_nat i * 30 / of_nat n \<le> ?v"
      using npos by (simp add: divide_le_cancel)
    have v: "?v = 10 + of_nat (Suc i) * 30 / of_nat n" by (simp add: add.commute)
    have 1: "sorted (progress ?t)"
      using Cons.prems(1,2) step by (auto simp: progress_emit sorted_append)
    have 2: "\<forall>p \<in> set (progress ?t). p \<le> 10 + of_nat (Suc i) * 30 / of_nat n"
      using Cons.prems(2) step by (auto simp: progress_emit v [symmetric] simp del: of_nat_Suc)
    have 3: "Suc i + length fs \<le> n" using Cons.prems(3) by simp
    from Cons.IH [OF 1 2 3, of "bufs @ [b]"] Inr show ?thesis by simp
  qed
qed

lemma mergeFiles_progress: "sorted (progress (snd (mergeFiles env files outputFormat)))"
proof -
  obtain x t1 where rb:
    "read_buffers env files (length files) 0 [] (emit 10 no_trace) = (x, t1)"
    by (cases "read_buffers env files (length files) 0 [] (emit 10 no_trace)") auto
  have "sorted (progress (emit 10 no_trace))"
    "\<forall>p \<in> set (progress (emit 10 no_trace)). p \<le> 10 + of_nat 0 * 30 / of_nat (length files)"
    by (simp_all add: progress_emit no_trace_def)
  from read_buffers_progress [OF this, of files env "[]"] rb
  have t1: "sorted (progress t1)" "\<forall>p \<in> set (progress t1). p \<le> 40" by simp_all
  then have t2: "sorted (progress t1 @ [70])" "sorted (progress t1 @ [70, 90])"
    "sorted (progress t1 @ [70, 90, 100])"
    by (fastforce simp: sorted_append)+
  show ?thesis
  proof (cases x)
    case (Inl e)
    with rb t1 show ?thesis by (simp add: mergeFiles_def)
  next
    case (Inr bufs)
    show ?thesis
    proof (cases "merge_by_format env bufs outputFormat")
      case (Inl e)
      with rb Inr t2 show ?thesis by (simp add: mergeFiles_def Let_def progress_emit)
    next
      case merged: (Inr m)
      with rb Inr t2 show ?thesis
        by (cases "writeFile env m")
          (simp_all add: mergeFiles_def Let_def progress_emit progress_wrote)
    qed
  qed
qed

lemma processImage_progress: "sorted (progress (snd (processImage env f targetFormat)))"
  by (auto simp: processImage_def Let_def progress_emit progress_wrote no_trace_def
      split: sum.splits option.splits)

text \<open>
  C8: the values that one call of \<open>mergeFiles\<close> or of \<open>processImage\<close> hands to
  \<^verbatim>\<open>onProgress\<close> form a non-decreasing sequence, whatever the files, the file system and
  the requested format are and whether the call succeeds or fails part-way. (The values
  \<^verbatim>\<open>10 + (i + 1) * 30 / files.length\<close> are exact rationals here; rounding to doubles is
  monotone and keeps the order.)
\<close>

theorem progress_monotone:
  "sorted (progress (snd (mergeFiles env files outputFormat))) \<and>
   sorted (progress (snd (processImage env' f targetFormat)))"
  by (simp add: mergeFiles_progress processImage_progress)

section \<open>Properties of the compression ratio\<close>




text \<open>
  What the unguarded division gives for an original size of 0: \<^verbatim>\<open>NaN\<close> when the output is
  empty too, \<^verbatim>\<open>-Infinity\<close> otherwise.
\<close>

lemma compression_ratio_zero_original:
  "compression_ratio 0 0 = NaN"
  "0 < compressed \<Longrightarrow> compression_ratio 0 compressed = NegInfinity"
  by (simp_all add: compression_ratio_def js_div_def js_scale_def toFixed2_def)




section \<open>Properties of the C modules\<close>

subsection \<open>Output capacity\<close>

lemma rd_in_range: "0 \<le> i \<Longrightarrow> i < int (length buf) \<Longrightarrow> rd buf i = Inr (buf ! nat i)"
  by (simp add: rd_def)

lemma wr_in_range: "0 \<le> i \<Longrightarrow> i < int (length buf) \<Longrightarrow> wr buf i v = Inr (buf[nat i := v])"
  by (simp add: wr_def)

lemma process_image_loop_result:
  assumes "processed_size \<le> int (length output_data)" "input_size \<le> int (length input_data)" "0 \<le> i"
  shows "\<exists>out'. process_image_loop input_data input_size processed_size quality format i output_data
             = Inr out' \<and>
           length out' = length output_data \<and>
           (\<forall>k. out' ! k =
              (if i \<le> int k \<and> int k < processed_size \<and> int k < input_size \<and>
                  (format = 0 \<or> format = 1 \<or> format = 2)
               then process_image_byte quality format (input_data ! k) else output_data ! k))"
  using assms
proof (induction input_data input_size processed_size quality format i output_data
    rule: process_image_loop.induct)
  case (1 input_data input_size processed_size quality format i output_data)
  note unfold = process_image_loop.simps
    [of input_data input_size processed_size quality format i output_data]
  show ?case
  proof (cases "i < processed_size \<and> i < input_size")
    case False
    then show ?thesis by (auto simp: unfold)
  next
    case run: True
    show ?thesis
    proof (cases "format = 0 \<or> format = 1 \<or> format = 2")
      case False
      from "1.IH"(2) [OF run False] "1.prems" obtain out' where
        "process_image_loop input_data input_size processed_size quality format (i + 1) output_data
           = Inr out'" "length out' = length output_data"
        "\<forall>k. out' ! k = output_data ! k"
        using False by auto
      with run False show ?thesis by (auto simp: unfold)
    next
      case fmt: True
      let ?v = "process_image_byte quality format (input_data ! nat i)"
      let ?out1 = "output_data[nat i := ?v]"
      from run "1.prems" have r: "rd input_data i = Inr (input_data ! nat i)"
        and w: "wr output_data i ?v = Inr ?out1"
        by (simp_all add: rd_in_range wr_in_range)
      from "1.IH"(1) [OF run fmt r w] "1.prems" obtain out' where
        res: "process_image_loop input_data input_size processed_size quality format (i + 1) ?out1
           = Inr out'" and len: "length out' = length output_data"
        and cont: "\<forall>k. out' ! k =
              (if i + 1 \<le> int k \<and> int k < processed_size \<and> int k < input_size
               then process_image_byte quality format (input_data ! k) else ?out1 ! k)"
        using fmt by auto
      have "out' ! k =
              (if i \<le> int k \<and> int k < processed_size \<and> int k < input_size
               then process_image_byte quality format (input_data ! k) else output_data ! k)" for k
      proof (cases "int k = i")
        case True
        then have "nat i = k" by simp
        with cont True run "1.prems" show ?thesis by auto
      next
        case False
        then have "nat i \<noteq> k" using "1.prems"(3) by auto
        with cont False show ?thesis by auto
      qed
      with res len run fmt r w show ?thesis by (simp add: unfold)
    qed
  qed
qed


lemma s32_id: "- (2 ^ 31) \<le> x \<Longrightarrow> x < 2 ^ 31 \<Longrightarrow> s32 x = x"
  by (simp add: s32_def)

lemma sum_list_nonneg_int: "\<forall>s \<in> set xs. (0::int) \<le> s \<Longrightarrow> 0 \<le> sum_list xs"
  by (induction xs) auto

lemma sum_file_sizes_total:
  assumes "0 \<le> i" "num_files = int (length sizes)" "\<forall>s \<in> set sizes. 0 \<le> s" "0 \<le> acc"
    and "acc + sum_list (drop (nat i) sizes) < 2 ^ 31"
  shows "sum_file_sizes sizes num_files i acc = Inr (acc + sum_list (drop (nat i) sizes))"
  using assms
proof (induction sizes num_files i acc rule: sum_file_sizes.induct)
  case (1 file_sizes num_files i total_size)
  note unfold = sum_file_sizes.simps [of file_sizes num_files i total_size]
  show ?case
  proof (cases "i < num_files")
    case False
    with "1.prems" show ?thesis by (subst unfold) simp
  next
    case True
    let ?sz = "file_sizes ! nat i"
    from True "1.prems" have r: "rd file_sizes i = Inr ?sz" by (simp add: rd_in_range)
    from True "1.prems" have d: "drop (nat i) file_sizes = ?sz # drop (nat (i + 1)) file_sizes"
      by (simp add: Cons_nth_drop_Suc nat_add_distrib)
    from True "1.prems" have "?sz \<in> set file_sizes" by simp
    with "1.prems" have sz: "0 \<le> ?sz" by blast
    have rest: "0 \<le> sum_list (drop (nat (i + 1)) file_sizes)"
      using "1.prems"(3) by (intro sum_list_nonneg_int) (auto dest: in_set_dropD)
    from "1.prems"(4,5) sz rest d have s: "s32 (total_size + ?sz) = total_size + ?sz"
      by (intro s32_id) auto
    have "sum_file_sizes file_sizes num_files (i + 1) (s32 (total_size + ?sz)) =
        Inr (s32 (total_size + ?sz) + sum_list (drop (nat (i + 1)) file_sizes))"
      using "1.prems" sz d s by (intro "1.IH" [OF True r]) auto
    with True r d s show ?thesis by (subst unfold) simp
  qed
qed

text \<open>
  C4 (as stated): an operation whose result exceeds the output capacity signals an error
  instead of truncating. \<^verbatim>\<open>process_image\<close> does not: four input bytes at quality 100 make a
  result of four bytes, the capacity is two, and the call returns 2 with the first two
  bytes written.
\<close>

theorem process_image_capacity_counterexample:
  "process_image_size 4 100 = 4 \<and>
   process_image (Buf [1, 2, 3, 4]) 4 (Buf [0, 0]) 2 100 1 = Inr (2, Buf [1, 2])"
  by code_simp

text \<open>
  C4 (amended): \<^verbatim>\<open>process_image\<close> clamps: on valid arguments it never fails, returns the
  smaller of the computed size and \<open>output_size\<close>, and has written that many transformed
  input bytes (at most \<open>input_size\<close>), leaving the rest of the output untouched.
  \<^verbatim>\<open>merge_pdfs\<close> does signal: when the sizes of the files add up to more than
  \<open>output_size\<close> it returns -1 and writes nothing.
\<close>

theorem capacity_handling:
  "(0 < input_size \<and> 0 < output_size \<and> input_size \<le> int (length inp) \<and>
    output_size \<le> int (length out) \<longrightarrow>
      (\<exists>out'. process_image (Buf inp) input_size (Buf out) output_size quality format =
           Inr (min (process_image_size input_size quality) output_size, Buf out') \<and>
         length out' = length out \<and>
         (\<forall>k. out' ! k =
            (if int k < min (process_image_size input_size quality) output_size \<and>
                int k < input_size \<and> (format = 0 \<or> format = 1 \<or> format = 2)
             then process_image_byte quality format (inp ! k) else out ! k)))) \<and>
   (0 < output_size \<and> sizes \<noteq> [] \<and> (\<forall>s \<in> set sizes. 0 \<le> s) \<and> sum_list sizes < 2 ^ 31 \<and>
    output_size < sum_list sizes \<longrightarrow>
      merge_pdfs (Buf files) (Buf sizes) (int (length sizes)) (Buf out) output_size =
        Inr (- 1, Buf out))"
proof (intro conjI impI)
  assume h: "0 < input_size \<and> 0 < output_size \<and> input_size \<le> int (length inp) \<and>
    output_size \<le> int (length out)"
  let ?ps = "min (process_image_size input_size quality) output_size"
  have ps: "(if process_image_size input_size quality > output_size then output_size
             else process_image_size input_size quality) = ?ps"
    by (simp add: min_def)
  from h have "?ps \<le> int (length out)" by linarith
  from process_image_loop_result [OF this, of input_size inp 0 quality format] h
  obtain out' where "process_image_loop inp input_size ?ps quality format 0 out = Inr out'"
    "length out' = length out"
    "\<forall>k. out' ! k =
       (if 0 \<le> int k \<and> int k < ?ps \<and> int k < input_size \<and> (format = 0 \<or> format = 1 \<or> format = 2)
        then process_image_byte quality format (inp ! k) else out ! k)"
    by auto
  with h ps show "\<exists>out'. process_image (Buf inp) input_size (Buf out) output_size quality format =
           Inr (?ps, Buf out') \<and> length out' = length out \<and>
         (\<forall>k. out' ! k =
            (if int k < ?ps \<and> int k < input_size \<and> (format = 0 \<or> format = 1 \<or> format = 2)
             then process_image_byte quality format (inp ! k) else out ! k))"
    by (simp add: process_image_def Let_def)
next
  assume h: "0 < output_size \<and> sizes \<noteq> [] \<and> (\<forall>s \<in> set sizes. 0 \<le> s) \<and>
    sum_list sizes < 2 ^ 31 \<and> output_size < sum_list sizes"
  then have "sum_file_sizes sizes (int (length sizes)) 0 0 = Inr (sum_list sizes)"
    using sum_file_sizes_total [of 0 "int (length sizes)" sizes 0] by simp
  with h show "merge_pdfs (Buf files) (Buf sizes) (int (length sizes)) (Buf out) output_size =
        Inr (- 1, Buf out)"
    by (simp add: merge_pdfs_def)
qed

theorem capacity_handling_witness:
  "(\<exists>out'. process_image (Buf [1, 2, 3, 4]) 4 (Buf [0, 0]) 2 100 1 = Inr (2, Buf out') \<and>
      out' ! 0 = 1 \<and> out' ! 1 = 2) \<and>
   merge_pdfs (Buf [Buf [1, 2], Buf [3]]) (Buf [2, 1]) 2 (Buf [9, 9]) 2 = Inr (- 1, Buf [9, 9])"
proof -
  have ps: "process_image_size 4 100 = 4" "process_image_byte 100 1 = (\<lambda>b. b)"
    by (simp_all add: process_image_size_def process_image_byte_def cdiv_def s32_def fun_eq_iff)
  from capacity_handling [THEN conjunct1, rule_format, of 4 2 "[1, 2, 3, 4]" "[0, 0]" 100 1]
  obtain out' where
    "process_image (Buf [1, 2, 3, 4]) 4 (Buf [0, 0]) 2 100 1 =
       Inr (min (process_image_size 4 100) 2, Buf out')"
    "\<forall>k. out' ! k =
       (if int k < min (process_image_size 4 100) 2 \<and> int k < 4 \<and> ((1::int) = 0 \<or> (1::int) = 1 \<or> (1::int) = 2)
        then process_image_byte 100 1 ([1, 2, 3, 4] ! k) else [0, 0] ! k)"
    by auto
  then have a: "process_image (Buf [1, 2, 3, 4]) 4 (Buf [0, 0]) 2 100 1 = Inr (2, Buf out')"
    and "out' ! 0 = 1" "out' ! 1 = 2"
    by (simp_all add: ps)
  then have 1: "\<exists>out'. process_image (Buf [1, 2, 3, 4]) 4 (Buf [0, 0]) 2 100 1 = Inr (2, Buf out') \<and>
      out' ! 0 = 1 \<and> out' ! 1 = 2"
    by blast
  from capacity_handling [THEN conjunct2, rule_format, of 2 "[2, 1]" "[Buf [1, 2], Buf [3]]" "[9, 9]"]
  have 2: "merge_pdfs (Buf [Buf [1, 2], Buf [3]]) (Buf [2, 1]) 2 (Buf [9, 9]) 2 = Inr (- 1, Buf [9, 9])"
    by simp
  from 1 2 show ?thesis by blast
qed

subsection \<open>The compression loops\<close>

lemma cdiv_pos: "0 \<le> a \<Longrightarrow> 0 < b \<Longrightarrow> cdiv a b = a div b"
  by (simp add: cdiv_def sgn_if)

lemma compress_image_loop_result:
  assumes "0 < step" "0 \<le> j" "i = j * step" "target * step \<le> input_size \<or> step = 1"
    and "input_size \<le> int (length input_data)" "target \<le> int (length output_data)"
    and "input_size < 2 ^ 31"
  shows "\<exists>out'. compress_image_loop input_data input_size target step i j output_data = Inr out' \<and>
           length out' = length output_data \<and>
           (\<forall>k. out' ! k =
              (if j \<le> int k \<and> int k < target \<and> int k * step < input_size
               then input_data ! nat (int k * step) else output_data ! k))"
  using assms
proof (induction input_data input_size target step i j output_data
    rule: compress_image_loop.induct)
  case (1 input_data input_size target step i j output_data)
  note unfold = compress_image_loop.simps [of input_data input_size target step i j output_data]
  show ?case
  proof (cases "i < input_size \<and> j < target")
    case False
    have "\<not> (j \<le> int k \<and> int k < target \<and> int k * step < input_size)" for k
    proof
      assume k: "j \<le> int k \<and> int k < target \<and> int k * step < input_size"
      then have "j * step \<le> int k * step" using "1.prems"(1) by (simp add: mult_right_mono)
      with k False "1.prems"(3) show False by simp
    qed
    with False show ?thesis by (subst unfold) auto
  next
    case run: True
    let ?b = "input_data ! nat i"
    let ?out1 = "output_data[nat j := ?b]"
    from "1.prems" have i0: "0 \<le> i" by simp
    from run "1.prems" i0 have r: "rd input_data i = Inr ?b"
      and w: "wr output_data j ?b = Inr ?out1"
      by (simp_all add: rd_in_range wr_in_range)
    have next_i: "i + step \<le> input_size"
    proof (cases "step = 1")
      case True
      with run show ?thesis by simp
    next
      case False
      with "1.prems"(4) have "target * step \<le> input_size" by simp
      moreover from run "1.prems"(1) have "(j + 1) * step \<le> target * step"
        by (intro mult_right_mono) simp_all
      ultimately show ?thesis using "1.prems"(3) by (simp add: algebra_simps)
    qed
    moreover have "0 \<le> i + step" using i0 "1.prems"(1) by simp
    ultimately have "s32 (i + step) = i + step"
      using "1.prems"(7) by (intro s32_id) linarith+
    with "1.prems"(3) have s: "s32 (i + step) = (j + 1) * step"
      by (simp add: algebra_simps)
    from "1.IH" [OF run r w] "1.prems" s obtain out' where
      res: "compress_image_loop input_data input_size target step (s32 (i + step)) (j + 1) ?out1
              = Inr out'"
      and len: "length out' = length output_data"
      and cont: "\<forall>k. out' ! k =
              (if j + 1 \<le> int k \<and> int k < target \<and> int k * step < input_size
               then input_data ! nat (int k * step) else ?out1 ! k)"
      by auto
    have "out' ! k =
              (if j \<le> int k \<and> int k < target \<and> int k * step < input_size
               then input_data ! nat (int k * step) else output_data ! k)" for k
    proof (cases "int k = j")
      case True
      then have "nat j = k" by auto
      with cont True run "1.prems" show ?thesis by auto
    next
      case False
      then have "nat j \<noteq> k" using "1.prems"(2) by auto
      with cont False show ?thesis by auto
    qed
    with res len run r w show ?thesis by (subst unfold) simp
  qed
qed


lemma uint_byte_lt: "uint (b :: byte) < 256"
  using uint_bounded [of b] by simp

lemma sum_list_uint_le: "sum_list (map uint (xs :: byte list)) \<le> 255 * int (length xs)"
proof (induction xs)
  case Nil
  then show ?case by simp
next
  case (Cons x xs)
  with uint_byte_lt [of x] show ?case by simp
qed

lemma sum_list_uint_nonneg: "0 \<le> sum_list (map uint (xs :: byte list))"
  by (induction xs) simp_all

lemma audio_window_result:
  assumes "0 \<le> i" "0 \<le> k" "k \<le> step" "i + step \<le> input_size"
    and "input_size \<le> int (length input_data)" "input_size < 2 ^ 31"
  shows "\<exists>acc'. audio_window input_data input_size step i k acc cnt = Inr (acc', cnt + (step - k)) \<and>
           (0 \<le> acc \<and> acc + 255 * (step - k) < 2 ^ 31 \<longrightarrow>
              acc' = acc + sum_list (map uint (take (nat (step - k)) (drop (nat (i + k)) input_data))))"
  using assms
proof (induction input_data input_size step i k acc cnt rule: audio_window.induct)
  case (1 input_data input_size step i k acc cnt)
  note unfold = audio_window.simps [of input_data input_size step i k acc cnt]
  show ?case
  proof (cases "k < step")
    case False
    with "1.prems" have "k = step" by simp
    then show ?thesis by (subst unfold) simp
  next
    case True
    let ?b = "input_data ! nat (i + k)"
    from True "1.prems" have idx: "s32 (i + k) = i + k"
      by (intro s32_id) linarith+
    from True "1.prems" have inb: "0 \<le> i + k" "i + k < input_size" "i + k < int (length input_data)"
      by linarith+
    then have r: "rd input_data (s32 (i + k)) = Inr ?b"
      by (simp add: idx rd_in_range)
    have run: "k < step \<and> s32 (i + k) < input_size" using True inb idx by simp
    from "1.IH" [OF run r] "1.prems" True obtain acc' where
      res: "audio_window input_data input_size step i (k + 1) (s32 (acc + uint ?b)) (cnt + 1)
              = Inr (acc', cnt + 1 + (step - (k + 1)))"
      and val: "0 \<le> s32 (acc + uint ?b) \<and> s32 (acc + uint ?b) + 255 * (step - (k + 1)) < 2 ^ 31 \<longrightarrow>
              acc' = s32 (acc + uint ?b) +
                sum_list (map uint (take (nat (step - (k + 1))) (drop (nat (i + (k + 1))) input_data)))"
      by auto
    have "acc' = acc + sum_list (map uint (take (nat (step - k)) (drop (nat (i + k)) input_data)))"
      if bound: "0 \<le> acc \<and> acc + 255 * (step - k) < 2 ^ 31"
    proof -
      have ub: "uint ?b < 256" by (rule uint_byte_lt)
      have lb: "0 \<le> uint ?b" by simp
      define u where "u = uint ?b"
      from ub lb have u: "0 \<le> u" "u < 256" by (simp_all add: u_def)
      from bound True u have "- (2 ^ 31) \<le> acc + u" "acc + u < 2 ^ 31" by simp_all
      then have "s32 (acc + u) = acc + u" by (rule s32_id)
      then have "s32 (acc + uint ?b) = acc + uint ?b" by (simp add: u_def)
      moreover from bound True ub lb have "acc + uint ?b + 255 * (step - (k + 1)) < 2 ^ 31"
        by simp
      ultimately have a: "acc' = acc + uint ?b +
          sum_list (map uint (take (nat (step - (k + 1))) (drop (nat (i + (k + 1))) input_data)))"
        using val bound lb by simp
      from inb have "nat (i + (k + 1)) = Suc (nat (i + k))" "nat (i + k) < length input_data"
        by linarith+
      then have "drop (nat (i + k)) input_data = ?b # drop (nat (i + (k + 1))) input_data"
        by (simp add: Cons_nth_drop_Suc)
      moreover from True have "nat (step - k) = Suc (nat (step - (k + 1)))" by simp
      ultimately have "take (nat (step - k)) (drop (nat (i + k)) input_data) =
          ?b # take (nat (step - (k + 1))) (drop (nat (i + (k + 1))) input_data)"
        by simp
      with a show ?thesis by simp
    qed
    moreover have "cnt + 1 + (step - (k + 1)) = cnt + (step - k)" by simp
    ultimately show ?thesis using res run r by (subst unfold) simp
  qed
qed

lemma compress_audio_loop_result:
  assumes "0 < step" "0 \<le> j" "i = j * step" "target * step \<le> input_size \<or> step = 1"
    and "input_size \<le> int (length input_data)" "target \<le> int (length output_data)"
    and "input_size < 2 ^ 31"
  shows "\<exists>out'. compress_audio_loop input_data input_size target step i j output_data = Inr out' \<and>
           length out' = length output_data \<and>
           (255 * step < 2 ^ 31 \<longrightarrow>
            (\<forall>k. out' ! k =
              (if j \<le> int k \<and> int k < target \<and> int k * step < input_size
               then word_of_int (window_mean input_data step (int k)) else output_data ! k)))"
  using assms
proof (induction input_data input_size target step i j output_data
    rule: compress_audio_loop.induct)
  case (1 input_data input_size target step i j output_data)
  note unfold = compress_audio_loop.simps [of input_data input_size target step i j output_data]
  show ?case
  proof (cases "i < input_size \<and> j < target")
    case False
    have "\<not> (j \<le> int k \<and> int k < target \<and> int k * step < input_size)" for k
    proof
      assume k: "j \<le> int k \<and> int k < target \<and> int k * step < input_size"
      then have "j * step \<le> int k * step" using "1.prems"(1) by (simp add: mult_right_mono)
      with k False "1.prems"(3) show False by simp
    qed
    with False show ?thesis by (subst unfold) auto
  next
    case run: True
    from "1.prems" have i0: "0 \<le> i" by simp
    have next_i: "i + step \<le> input_size"
    proof (cases "step = 1")
      case True
      with run show ?thesis by simp
    next
      case False
      with "1.prems"(4) have "target * step \<le> input_size" by simp
      moreover from run "1.prems"(1) have "(j + 1) * step \<le> target * step"
        by (intro mult_right_mono) simp_all
      ultimately show ?thesis using "1.prems"(3) by (simp add: algebra_simps)
    qed
    moreover have "0 \<le> i + step" using i0 "1.prems"(1) by simp
    ultimately have "s32 (i + step) = i + step"
      using "1.prems"(7) by (intro s32_id) linarith+
    with "1.prems"(3) have s: "s32 (i + step) = (j + 1) * step"
      by (simp add: algebra_simps)
    from audio_window_result [OF i0 _ _ next_i "1.prems"(5,7), of 0 0 0] "1.prems"(1)
    obtain acc where aw: "audio_window input_data input_size step i 0 0 0 = Inr (acc, step)"
      and val: "255 * step < 2 ^ 31 \<longrightarrow>
         acc = sum_list (map uint (take (nat step) (drop (nat i) input_data)))"
      by auto
    let ?v = "word_of_int (cdiv acc step) :: byte"
    let ?out1 = "output_data[nat j := ?v]"
    from run "1.prems" have w: "wr output_data j ?v = Inr ?out1"
      by (simp add: wr_in_range)
    from "1.prems"(1) have nz: "step \<noteq> 0" by simp
    from "1.IH" [OF run aw refl nz w] "1.prems" s obtain out' where
      res: "compress_audio_loop input_data input_size target step (s32 (i + step)) (j + 1) ?out1
              = Inr out'"
      and len: "length out' = length output_data"
      and cont: "255 * step < 2 ^ 31 \<longrightarrow> (\<forall>k. out' ! k =
              (if j + 1 \<le> int k \<and> int k < target \<and> int k * step < input_size
               then word_of_int (window_mean input_data step (int k)) else ?out1 ! k))"
      by auto
    have "out' ! k =
              (if j \<le> int k \<and> int k < target \<and> int k * step < input_size
               then word_of_int (window_mean input_data step (int k)) else output_data ! k)"
      if bound: "255 * step < 2 ^ 31" for k
    proof (cases "int k = j")
      case True
      then have kj: "nat j = k" by auto
      from val bound "1.prems"(3) have "acc = sum_list (map uint (take (nat step) (drop (nat (j * step)) input_data)))"
        by simp
      moreover have "0 \<le> sum_list (map uint (take (nat step) (drop (nat (j * step)) input_data)))"
        by (rule sum_list_uint_nonneg)
      ultimately have "cdiv acc step = window_mean input_data step j"
        using "1.prems"(1) by (simp add: cdiv_pos window_mean_def)
      with cont bound True kj run "1.prems" show ?thesis by auto
    next
      case False
      then have "nat j \<noteq> k" using "1.prems"(2) by auto
      with cont bound False show ?thesis by auto
    qed
    with res len run aw w nz show ?thesis by (subst unfold) simp
  qed
qed


lemma compression_step_eq:
  assumes "0 < input_size" "0 < target"
  shows "compression_step input_size target = max 1 (input_size div target)"
  using assms by (simp add: compression_step_def cdiv_pos Let_def max_def)

lemma compression_step_ok:
  assumes "0 < input_size" "0 < target"
  shows "0 < compression_step input_size target"
    and "target * compression_step input_size target \<le> input_size \<or>
         compression_step input_size target = 1"
    and "compression_step input_size target \<le> input_size"
proof -
  have "target * (input_size div target) + input_size mod target = input_size" by simp
  moreover have "0 \<le> input_size mod target" using assms(2) by simp
  ultimately have "target * (input_size div target) \<le> input_size" by linarith
  moreover have "input_size div target \<le> input_size"
    using zdiv_mono2 [of input_size 1 target] assms by simp
  ultimately show "0 < compression_step input_size target"
    "target * compression_step input_size target \<le> input_size \<or>
         compression_step input_size target = 1"
    "compression_step input_size target \<le> input_size"
    using assms by (auto simp: compression_step_eq max_def)
qed

lemma compress_image_result:
  assumes "0 < input_size" "input_size < 2 ^ 31" "0 < output_size"
    and "input_size \<le> int (length inp)" "output_size \<le> int (length out)"
    and "float_target_size input_size quality = Some t" "1 \<le> t"
  shows "\<exists>out'. compress_image (Buf inp) input_size (Buf out) output_size quality =
             Inr (min t output_size, Buf out') \<and>
           length out' = length out \<and>
           (\<forall>k. out' ! k =
              (if int k < min t output_size \<and>
                  int k * compression_step input_size (min t output_size) < input_size
               then inp ! nat (int k * compression_step input_size (min t output_size))
               else out ! k))"
proof -
  define target where "target = min t output_size"
  define step where "step = compression_step input_size target"
  have tg: "(if t > output_size then output_size else t) = target"
    by (simp add: min_def target_def)
  from assms have tpos: "0 < target" by (simp add: target_def)
  note st = compression_step_ok [OF assms(1) tpos, folded step_def]
  from assms have cap: "target \<le> int (length out)" unfolding target_def by linarith
  from compress_image_loop_result [OF st(1) _ _ st(2) assms(4) cap assms(2), of 0 0]
  obtain out' where "compress_image_loop inp input_size target step 0 0 out = Inr out'"
    "length out' = length out"
    "\<forall>k. out' ! k =
       (if 0 \<le> int k \<and> int k < target \<and> int k * step < input_size
        then inp ! nat (int k * step) else out ! k)"
    by auto
  with assms tpos have "\<exists>out'. compress_image (Buf inp) input_size (Buf out) output_size quality =
             Inr (target, Buf out') \<and>
           length out' = length out \<and>
           (\<forall>k. out' ! k =
              (if int k < target \<and> int k * step < input_size
               then inp ! nat (int k * step) else out ! k))"
    by (simp add: compress_image_def Let_def tg step_def [symmetric])
  then show ?thesis unfolding step_def target_def .
qed

lemma compress_audio_result:
  assumes "0 < input_size" "input_size < 2 ^ 31" "0 < output_size"
    and "input_size \<le> int (length inp)" "output_size \<le> int (length out)"
    and "float_target_size input_size quality = Some t" "1 \<le> t"
  shows "\<exists>out'. compress_audio (Buf inp) input_size (Buf out) output_size quality =
             Inr (min t output_size, Buf out') \<and>
           length out' = length out \<and>
           (255 * compression_step input_size (min t output_size) < 2 ^ 31 \<longrightarrow>
            (\<forall>k. out' ! k =
              (if int k < min t output_size \<and>
                  int k * compression_step input_size (min t output_size) < input_size
               then word_of_int
                      (window_mean inp (compression_step input_size (min t output_size)) (int k))
               else out ! k)))"
proof -
  define target where "target = min t output_size"
  define step where "step = compression_step input_size target"
  have tg: "(if t > output_size then output_size else t) = target"
    by (simp add: min_def target_def)
  from assms have tpos: "0 < target" by (simp add: target_def)
  note st = compression_step_ok [OF assms(1) tpos, folded step_def]
  from assms have cap: "target \<le> int (length out)" unfolding target_def by linarith
  from compress_audio_loop_result [OF st(1) _ _ st(2) assms(4) cap assms(2), of 0 0]
  obtain out' where "compress_audio_loop inp input_size target step 0 0 out = Inr out'"
    "length out' = length out"
    "255 * step < 2 ^ 31 \<longrightarrow> (\<forall>k. out' ! k =
       (if 0 \<le> int k \<and> int k < target \<and> int k * step < input_size
        then word_of_int (window_mean inp step (int k)) else out ! k))"
    by auto
  with assms tpos have "\<exists>out'. compress_audio (Buf inp) input_size (Buf out) output_size quality =
             Inr (target, Buf out') \<and>
           length out' = length out \<and>
           (255 * step < 2 ^ 31 \<longrightarrow>
            (\<forall>k. out' ! k =
              (if int k < target \<and> int k * step < input_size
               then word_of_int (window_mean inp step (int k)) else out ! k)))"
    by (simp add: compress_audio_def Let_def tg step_def [symmetric])
  then show ?thesis unfolding step_def target_def .
qed

subsection \<open>compress_image and compress_audio\<close>

lemma float_target_75_84: "float_target_size 75 84 = Some 62"
  by code_simp

text \<open>
  C9 (as stated): the functions return \<open>min (floor (input_size * quality / 100)) output_size\<close>.
  The target size is computed in single precision, and for 75 bytes at quality 84 the
  float product is just below 63: both functions return 62.
\<close>

theorem compress_float_target_counterexample:
  "returned (compress_image (Buf (replicate 75 0)) 75 (Buf (replicate 100 0)) 100 84) = Some 62 \<and>
   returned (compress_audio (Buf (replicate 75 0)) 75 (Buf (replicate 100 0)) 100 84) = Some 62 \<and>
   min ((75 * 84) div 100) 100 = (63::int)"
proof -
  from compress_image_result [of 75 100 "replicate 75 0" "replicate 100 0" 84 62]
    float_target_75_84
  have 1: "returned (compress_image (Buf (replicate 75 0)) 75 (Buf (replicate 100 0)) 100 84)
      = Some 62"
    by (auto simp: returned_def)
  from compress_audio_result [of 75 100 "replicate 75 0" "replicate 100 0" 84 62]
    float_target_75_84
  have 2: "returned (compress_audio (Buf (replicate 75 0)) 75 (Buf (replicate 100 0)) 100 84)
      = Some 62"
    by (auto simp: returned_def)
  from 1 2 show ?thesis by simp
qed

text \<open>
  C9 (amended): for non-null buffers at least as long as the declared sizes, positive sizes
  and a quality whose single-precision target size \<open>t\<close>,
  \<^verbatim>\<open>(int)(input_size * ((float)quality / 100.0f))\<close>, is defined and at least 1,
  \<^verbatim>\<open>compress_image\<close> and \<^verbatim>\<open>compress_audio\<close> run without a fault (no division by zero, no
  access outside a buffer) and return \<open>min t output_size\<close>.
\<close>

theorem compress_returns_clamped_target:
  assumes "0 < input_size" "input_size < 2 ^ 31" "0 < output_size"
    and "input_size \<le> int (length inp)" "output_size \<le> int (length out)"
    and "float_target_size input_size quality = Some t" "1 \<le> t"
  shows "(\<exists>out'. compress_image (Buf inp) input_size (Buf out) output_size quality =
            Inr (min t output_size, Buf out') \<and> length out' = length out) \<and>
         (\<exists>out'. compress_audio (Buf inp) input_size (Buf out) output_size quality =
            Inr (min t output_size, Buf out') \<and> length out' = length out)"
  using compress_image_result [OF assms] compress_audio_result [OF assms] by blast

lemma float_target_4_50: "float_target_size 4 50 = Some 2"
  by code_simp

theorem compress_returns_clamped_target_witness:
  "(\<exists>out'. compress_image (Buf [1, 2, 3, 4]) 4 (Buf [0, 0, 0]) 3 50 = Inr (2, Buf out') \<and>
      length out' = 3) \<and>
   (\<exists>out'. compress_audio (Buf [1, 2, 3, 4]) 4 (Buf [0, 0, 0]) 3 50 = Inr (2, Buf out') \<and>
      length out' = 3)"
  using compress_returns_clamped_target [of 4 3 "[1, 2, 3, 4]" "[0, 0, 0]" 50 2] float_target_4_50
  by (simp add: eval_nat_numeral)

lemma uint_word_of_int_byte: "0 \<le> m \<Longrightarrow> m < 256 \<Longrightarrow> uint (word_of_int m :: byte) = m"
  by (simp add: uint_word_of_int_eq take_bit_int_eq_self)

lemma window_mean_range:
  assumes "0 < step"
  shows "0 \<le> window_mean inp step j \<and> window_mean inp step j < 256"
proof -
  let ?w = "take (nat step) (drop (nat (j * step)) inp)"
  have "sum_list (map uint ?w) \<le> 255 * int (length ?w)" by (rule sum_list_uint_le)
  also have "\<dots> \<le> 255 * step" using assms by simp
  finally have "sum_list (map uint ?w) div step \<le> (255 * step) div step"
    using assms by (intro zdiv_mono1) simp_all
  then have "window_mean inp step j \<le> 255" using assms by (simp add: window_mean_def)
  moreover have "0 \<le> window_mean inp step j"
    using assms sum_list_uint_nonneg [of ?w] by (simp add: window_mean_def pos_imp_zdiv_nonneg_iff)
  ultimately show ?thesis by simp
qed

text \<open>
  C6 (as stated): each output sample is the rounded mean of its window. The samples 1, 2, 2
  in one window have mean 5/3, which rounds to 2; the function stores 1.
\<close>

theorem compress_audio_round_counterexample:
  "compress_audio (Buf [1, 2, 2]) 3 (Buf [0]) 1 34 = Inr (1, Buf [1]) \<and>
   round ((1 + 2 + 2) / 3 :: rat) = 2"
  by code_simp

text \<open>
  C6 (amended): each output sample \<open>j\<close> that \<^verbatim>\<open>compress_audio\<close> writes is the mean of the
  \<open>step\<close> consecutive input samples of its window rounded down (integer division of the
  sum by \<open>step\<close>), and the window lies within the input. (For windows of fewer than
  \<open>2 ^ 31 / 255\<close> samples, whose sum cannot overflow an \<^verbatim>\<open>int\<close>.)
\<close>

theorem compress_audio_truncated_mean:
  assumes "0 < input_size" "input_size < 2 ^ 31" "0 < output_size"
    and "input_size \<le> int (length inp)" "output_size \<le> int (length out)"
    and "float_target_size input_size quality = Some t" "1 \<le> t"
    and "255 * compression_step input_size (min t output_size) < 2 ^ 31"
  shows "\<exists>out'. compress_audio (Buf inp) input_size (Buf out) output_size quality =
            Inr (min t output_size, Buf out') \<and>
          (\<forall>j. int j < min t output_size \<and>
                int j * compression_step input_size (min t output_size) < input_size \<longrightarrow>
             uint (out' ! j) =
               window_mean inp (compression_step input_size (min t output_size)) (int j) \<and>
             int j * compression_step input_size (min t output_size) +
               compression_step input_size (min t output_size) \<le> input_size)"
proof -
  define target where "target = min t output_size"
  define step where "step = compression_step input_size target"
  from assms have tpos: "0 < target" by (simp add: target_def)
  note st = compression_step_ok [OF assms(1) tpos, folded step_def]
  from compress_audio_result [OF assms(1-7)] assms(8)
  obtain out' where res: "compress_audio (Buf inp) input_size (Buf out) output_size quality =
             Inr (target, Buf out')"
    and cont: "\<forall>k. out' ! k =
              (if int k < target \<and> int k * step < input_size
               then word_of_int (window_mean inp step (int k)) else out ! k)"
    unfolding target_def step_def by blast
  have "uint (out' ! j) = window_mean inp step (int j) \<and> int j * step + step \<le> input_size"
    if j: "int j < target \<and> int j * step < input_size" for j
  proof
    from cont j have "out' ! j = word_of_int (window_mean inp step (int j))" by simp
    with window_mean_range [OF st(1), of inp "int j"]
    show "uint (out' ! j) = window_mean inp step (int j)"
      by (simp add: uint_word_of_int_byte)
    show "int j * step + step \<le> input_size"
    proof (cases "step = 1")
      case True
      with j show ?thesis by simp
    next
      case False
      with st(2) have "target * step \<le> input_size" by simp
      moreover from j st(1) have "(int j + 1) * step \<le> target * step"
        by (intro mult_right_mono) simp_all
      ultimately show ?thesis by (simp add: algebra_simps)
    qed
  qed
  with res show ?thesis unfolding target_def step_def by blast
qed

lemma float_target_6_50: "float_target_size 6 50 = Some 3"
  by code_simp

theorem compress_audio_truncated_mean_witness:
  "\<exists>out'. compress_audio (Buf [1, 2, 4, 7, 9, 9]) 6 (Buf [0, 0, 0]) 3 50 = Inr (3, Buf out') \<and>
     uint (out' ! 0) = 1 \<and> uint (out' ! 1) = 5 \<and> uint (out' ! 2) = 9"
proof -
  have st: "compression_step 6 3 = 2" by code_simp
  have wm: "window_mean [1, 2, 4, 7, 9, 9] 2 0 = 1" "window_mean [1, 2, 4, 7, 9, 9] 2 1 = 5"
    "window_mean [1, 2, 4, 7, 9, 9] 2 2 = 9"
    by code_simp+
  from compress_audio_truncated_mean [of 6 3 "[1, 2, 4, 7, 9, 9]" "[0, 0, 0]" 50 3] float_target_6_50
  obtain out' where res: "compress_audio (Buf [1, 2, 4, 7, 9, 9]) 6 (Buf [0, 0, 0]) 3 50 = Inr (3, Buf out')"
    and m: "\<forall>j. int j < 3 \<and> int j * 2 < 6 \<longrightarrow> uint (out' ! j) = window_mean [1, 2, 4, 7, 9, 9] 2 (int j)"
    by (auto simp: st)
  from m [rule_format, of 0] m [rule_format, of 1] m [rule_format, of 2] wm
  have "uint (out' ! 0) = 1 \<and> uint (out' ! 1) = 5 \<and> uint (out' ! 2) = 9" by simp
  with res show ?thesis by blast
qed

subsection \<open>extract_text\<close>



















subsection \<open>Bounds on single-precision rounding\<close>

lemma bit_length_upper: "n < 2 ^ bit_length n"
proof (induction n rule: bit_length.induct)
  case (1 n)
  show ?case
  proof (cases "n = 0")
    case True
    then show ?thesis by (simp add: bit_length.simps)
  next
    case False
    from "1.IH" [OF False] have "n div 2 < 2 ^ bit_length (n div 2)" .
    then have "n < 2 * 2 ^ bit_length (n div 2)" by linarith
    with False show ?thesis by (subst bit_length.simps) simp
  qed
qed

lemma bit_length_lower: "0 < n \<Longrightarrow> 2 ^ (bit_length n - 1) \<le> n"
proof (induction n rule: bit_length.induct)
  case (1 n)
  then have n0: "n \<noteq> 0" by simp
  have bl: "bit_length n = Suc (bit_length (n div 2))"
    using n0 by (subst bit_length.simps) simp
  show ?case
  proof (cases "n div 2 = 0")
    case True
    then show ?thesis using bl "1.prems" by (simp add: bit_length.simps)
  next
    case False
    then have pos: "0 < n div 2" by simp
    from "1.IH" [OF n0 pos] have ih: "2 ^ (bit_length (n div 2) - 1) \<le> n div 2" .
    from False have "bit_length (n div 2) \<noteq> 0" by (subst bit_length.simps) simp
    then have "(2::nat) ^ bit_length (n div 2) = 2 * 2 ^ (bit_length (n div 2) - 1)"
      by (cases "bit_length (n div 2)") simp_all
    with ih have "(2::nat) ^ bit_length (n div 2) \<le> n" by linarith
    with bl show ?thesis by simp
  qed
qed

lemma pow2_pos: "0 < pow2 e"
  by (simp add: pow2_def)

lemma pow2_add: "pow2 (a + b) = pow2 a * pow2 b"
proof -
  have "pow2 e = 2 powi e" for e
    by (simp add: pow2_def power_int_def inverse_eq_divide power_one_over [symmetric]
        del: power_one_over)
  then show ?thesis by (simp add: power_int_add)
qed

lemma pow2_ilog2_le:
  assumes "0 < x"
  shows "pow2 (ilog2 x) \<le> x"
proof (cases "1 \<le> x")
  case True
  define n where "n = nat \<lfloor>x\<rfloor>"
  from True have n: "0 < n" by (simp add: n_def)
  from bit_length_lower [OF n] have "(2::nat) ^ (bit_length n - 1) \<le> n" .
  then have "int (2 ^ (bit_length n - 1)) \<le> int n" by (simp only: of_nat_le_iff)
  then have "(2::int) ^ (bit_length n - 1) \<le> \<lfloor>x\<rfloor>" using True by (simp add: n_def)
  then have "of_int ((2::int) ^ (bit_length n - 1)) \<le> x" by (simp only: le_floor_iff)
  then have le: "(2::rat) ^ (bit_length n - 1) \<le> x" by simp
  from n have "bit_length n \<noteq> 0" by (subst bit_length.simps) simp
  then have "nat (int (bit_length n) - 1) = bit_length n - 1" "0 \<le> int (bit_length n) - 1"
    by simp_all
  with le have "pow2 (int (bit_length n) - 1) \<le> x" by (simp add: pow2_def)
  with True show ?thesis by (simp add: ilog2_def n_def)
next
  case False
  define m where "m = nat (\<lceil>1 / x\<rceil> - 1)"
  define L where "L = bit_length m"
  from False assms have "1 < 1 / x" by simp
  then have c: "1 < \<lceil>1 / x\<rceil>" by (simp add: less_ceiling_iff)
  have "m < 2 ^ L" unfolding L_def by (rule bit_length_upper)
  then have "int m < int (2 ^ L)" by (simp only: of_nat_less_iff)
  then have "int m < 2 ^ L" by simp
  moreover from c have "0 \<le> \<lceil>1 / x\<rceil> - 1" by linarith
  then have "int m = \<lceil>1 / x\<rceil> - 1" unfolding m_def by (rule nat_0_le)
  ultimately have "\<lceil>1 / x\<rceil> \<le> 2 ^ L" by linarith
  then have "1 / x \<le> of_int (2 ^ L)" by (simp only: ceiling_le_iff)
  then have "1 / x \<le> 2 ^ L" by simp
  with assms have "1 \<le> 2 ^ L * x" by (simp add: pos_divide_le_eq)
  then have "1 / 2 ^ L \<le> x" by (simp add: pos_divide_le_eq mult.commute)
  moreover have "pow2 (- int L) = 1 / 2 ^ L" by (simp add: pow2_def)
  ultimately have "pow2 (- int L) \<le> x" by simp
  with False show ?thesis by (simp add: ilog2_def m_def L_def)
qed

lemma round_half_even_bounds:
  "of_int (round_half_even y) \<le> y + 1 / 2 \<and> y - 1 / 2 \<le> of_int (round_half_even y)"
proof -
  define f where "f = \<lfloor>y\<rfloor>"
  have fl: "of_int f \<le> y" "y < of_int f + 1" unfolding f_def by linarith+
  consider "y - of_int f < 1 / 2" | "1 / 2 < y - of_int f" | "y - of_int f = 1 / 2"
    by linarith
  then show ?thesis
  proof cases
    case 1
    then have "round_half_even y = f" by (simp add: round_half_even_def Let_def f_def)
    with fl 1 show ?thesis by simp
  next
    case 2
    then have "round_half_even y = f + 1" by (simp add: round_half_even_def Let_def f_def)
    with fl 2 show ?thesis by simp
  next
    case 3
    then have "round_half_even y = f \<or> round_half_even y = f + 1"
      by (simp add: round_half_even_def Let_def f_def)
    with fl 3 show ?thesis by auto
  qed
qed

lemma round_half_even_nonneg: "0 \<le> y \<Longrightarrow> 0 \<le> round_half_even y"
  by (auto simp: round_half_even_def Let_def)

lemma f32_round_bounds:
  assumes "0 < x"
  shows "x / 2 \<le> f32_round x \<and> f32_round x \<le> 2 * x"
proof -
  define u where "u = pow2 (ilog2 x - 23)"
  have upos: "0 < u" by (simp add: u_def pow2_pos)
  have "u = pow2 (ilog2 x) * pow2 (- 23)"
    unfolding u_def using pow2_add [of "ilog2 x" "- 23"] by simp
  also have "\<dots> \<le> x * pow2 (- 23)"
    using pow2_ilog2_le [OF assms] by (simp add: pow2_pos)
  finally have ux: "u \<le> x / 8388608" by (simp add: pow2_def)
  define r where "r = round_half_even (x / u)"
  from round_half_even_bounds [of "x / u"]
  have "of_int r \<le> x / u + 1 / 2" "x / u - 1 / 2 \<le> of_int r" by (simp_all add: r_def)
  with upos have "of_int r * u \<le> (x / u + 1 / 2) * u" "(x / u - 1 / 2) * u \<le> of_int r * u"
    by (simp_all add: mult_right_mono)
  with upos have b: "of_int r * u \<le> x + u / 2" "x - u / 2 \<le> of_int r * u"
    by (simp_all add: algebra_simps)
  from assms have "f32_round x = of_int r * u"
    by (simp add: f32_round_def Let_def u_def r_def)
  with b ux assms show ?thesis by simp
qed

lemma f32_round_nonneg: "0 \<le> x \<Longrightarrow> 0 \<le> f32_round x"
proof (cases "x = 0")
  case True
  then show ?thesis by (simp add: f32_round_def)
next
  case False
  assume "0 \<le> x"
  with False have "0 < x" by simp
  from f32_round_bounds [OF this] this show ?thesis by simp
qed

subsection \<open>resize_image and resize_video_frames\<close>

lemma f32_round_upper: "0 \<le> x \<Longrightarrow> f32_round x \<le> 2 * x"
proof (cases "x = 0")
  case True
  then show ?thesis by (simp add: f32_round_def)
next
  case False
  assume "0 \<le> x"
  with False have "0 < x" by simp
  from f32_round_bounds [OF this] show ?thesis by simp
qed

lemma src_coord_result:
  assumes "0 < extent" "extent < 2 ^ 26" "0 < out_extent" "0 \<le> x" "x < out_extent"
  shows "\<exists>s. src_coord x (f32_div (i2f extent) (i2f out_extent)) extent = Inr s \<and>
           0 \<le> s \<and> s < extent"
proof -
  define e where "e = (of_int extent :: rat)"
  define d where "d = (of_int out_extent :: rat)"
  define a where "a = i2f extent"
  define b where "b = i2f out_extent"
  define ratio where "ratio = f32_div a b"
  define fx where "fx = i2f x"
  define p where "p = f32_mul fx ratio"
  from assms have epos: "0 < e" and dpos: "0 < d" by (simp_all add: e_def d_def)
  from f32_round_bounds [OF epos] have a: "0 < a" "a \<le> 2 * e"
    using epos by (simp_all add: a_def i2f_def e_def)
  from f32_round_bounds [OF dpos] have b: "d / 2 \<le> b" "0 < b"
    using dpos by (simp_all add: b_def i2f_def d_def)
  have q: "0 < a / b" "a / b \<le> 4 * e / d"
  proof -
    show "0 < a / b" using a b by simp
    have "a / b \<le> (2 * e) / (d / 2)"
      using a b dpos epos by (intro frac_le) simp_all
    then show "a / b \<le> 4 * e / d" by simp
  qed
  from f32_round_bounds [OF q(1)] q have r: "0 < ratio" "ratio \<le> 8 * e / d"
    by (simp_all add: ratio_def f32_div_def)
  have xr: "(0::rat) \<le> of_int x" "(of_int x :: rat) \<le> d"
    using assms by (simp_all add: d_def)
  from f32_round_nonneg [OF xr(1)] f32_round_upper [OF xr(1)] xr
  have f: "0 \<le> fx" "fx \<le> 2 * d" by (simp_all add: fx_def i2f_def)
  have prod: "0 \<le> fx * ratio" "fx * ratio \<le> 16 * e"
  proof -
    show "0 \<le> fx * ratio" using f r by simp
    have "fx * ratio \<le> (2 * d) * (8 * e / d)"
      using f r by (intro mult_mono) simp_all
    also have "\<dots> = 16 * e" using dpos by simp
    finally show "fx * ratio \<le> 16 * e" .
  qed
  from f32_round_nonneg [OF prod(1)] f32_round_upper [OF prod(1)] prod
  have pb: "0 \<le> p" "p \<le> 32 * e" by (simp_all add: p_def f32_mul_def)
  from assms(2) have "e < 2 ^ 26"
    unfolding e_def by (metis of_int_less_iff of_int_numeral of_int_power)
  with pb have "p < 2 ^ 31" by simp
  then have "\<lfloor>p\<rfloor> < 2 ^ 31" by (simp add: floor_less_iff)
  moreover from pb have "0 \<le> \<lfloor>p\<rfloor>" by simp
  ultimately have "f2i p = Some \<lfloor>p\<rfloor>" using pb by (simp add: f2i_def Let_def)
  then have "src_coord x ratio extent = Inr (if \<lfloor>p\<rfloor> \<ge> extent then extent - 1 else \<lfloor>p\<rfloor>)"
    by (simp add: src_coord_def p_def fx_def)
  with \<open>0 \<le> \<lfloor>p\<rfloor>\<close> assms(1) show ?thesis
    unfolding ratio_def a_def b_def by auto
qed

lemma copy_pixel_result:
  assumes "0 \<le> c" "0 \<le> src" "src + chans \<le> int (length input_data)"
    and "0 \<le> dst" "dst + chans \<le> int (length output_data)"
  shows "\<exists>out'. copy_pixel input_data src dst chans c output_data = Inr out' \<and>
           length out' = length output_data \<and>
           (\<forall>k. out' ! k =
              (if dst + c \<le> int k \<and> int k < dst + chans
               then input_data ! nat (src + (int k - dst)) else output_data ! k))"
  using assms
proof (induction input_data src dst chans c output_data rule: copy_pixel.induct)
  case (1 input_data src dst chans c output_data)
  note unfold = copy_pixel.simps [of input_data src dst chans c output_data]
  show ?case
  proof (cases "c < chans")
    case False
    then show ?thesis by (subst unfold) auto
  next
    case run: True
    let ?b = "input_data ! nat (src + c)"
    let ?out1 = "output_data[nat (dst + c) := ?b]"
    from run "1.prems" have r: "rd input_data (src + c) = Inr ?b"
      and w: "wr output_data (dst + c) ?b = Inr ?out1"
      by (simp_all add: rd_in_range wr_in_range)
    from "1.IH" [OF run r w] "1.prems" obtain out' where
      res: "copy_pixel input_data src dst chans (c + 1) ?out1 = Inr out'"
      and len: "length out' = length output_data"
      and cont: "\<forall>k. out' ! k =
              (if dst + (c + 1) \<le> int k \<and> int k < dst + chans
               then input_data ! nat (src + (int k - dst)) else ?out1 ! k)"
      by auto
    have "out' ! k =
              (if dst + c \<le> int k \<and> int k < dst + chans
               then input_data ! nat (src + (int k - dst)) else output_data ! k)" for k
    proof (cases "int k = dst + c")
      case True
      then have "nat (dst + c) = k" "src + (int k - dst) = src + c" by auto
      with cont True run "1.prems" show ?thesis by auto
    next
      case False
      then have "nat (dst + c) \<noteq> k" using "1.prems" by auto
      with cont False show ?thesis by auto
    qed
    with res len run r w show ?thesis by (subst unfold) simp
  qed
qed

lemma pixel_index_result:
  assumes "0 \<le> row" "row < h" "0 \<le> col" "col < w" "0 < ch" "w * h * ch < 2 ^ 31"
  shows "pixel_index row w col ch = (row * w + col) * ch"
    and "0 \<le> (row * w + col) * ch"
    and "(row * w + col) * ch + ch \<le> w * h * ch"
proof -
  from assms have w0: "0 < w" and h0: "0 < h" by linarith+
  have "row * w \<le> (h - 1) * w" using assms w0 by (intro mult_right_mono) simp_all
  then have rc: "row * w + col + 1 \<le> w * h" using assms by (simp add: algebra_simps)
  then have "(row * w + col + 1) * ch \<le> (w * h) * ch"
    using assms(5) by (intro mult_right_mono) simp_all
  then show le: "(row * w + col) * ch + ch \<le> w * h * ch" by (simp add: algebra_simps)
  have rw0: "0 \<le> row * w" using assms w0 by simp
  then show nn: "0 \<le> (row * w + col) * ch" using assms by simp
  have "w * h \<le> w * h * ch" using assms(5) w0 h0 by simp
  with rc assms(6) have b1: "row * w + col < 2 ^ 31" by linarith
  with assms(3) have b0: "row * w < 2 ^ 31" by linarith
  from le assms(5,6) have b2: "(row * w + col) * ch < 2 ^ 31" by linarith
  have "s32 (row * w) = row * w" using rw0 b0 by (intro s32_id) linarith+
  moreover have "s32 (row * w + col) = row * w + col"
    using rw0 assms(3) b1 by (intro s32_id) linarith+
  moreover have "s32 ((row * w + col) * ch) = (row * w + col) * ch"
    using nn b2 by (intro s32_id) linarith+
  ultimately show "pixel_index row w col ch = (row * w + col) * ch"
    by (simp add: pixel_index_def)
qed

lemma pixel_offsets_result:
  assumes "valid_geometry g in_len out_len"
    and "0 \<le> x" "x < output_width g" "0 \<le> y" "y < output_height g"
  shows "\<exists>sx sy.
           src_coord x (x_ratio g) (input_width g) = Inr sx \<and>
           src_coord y (y_ratio g) (input_height g) = Inr sy \<and>
           0 \<le> sx \<and> sx < input_width g \<and> 0 \<le> sy \<and> sy < input_height g \<and>
           pixel_offsets g x y =
             Inr (in_base g + (sy * input_width g + sx) * channels g, dst_offset g x y) \<and>
           src_offset g x y = in_base g + (sy * input_width g + sx) * channels g \<and>
           0 \<le> src_offset g x y \<and> src_offset g x y + channels g \<le> int in_len \<and>
           0 \<le> dst_offset g x y \<and> dst_offset g x y + channels g \<le> int out_len"
proof -
  note v = assms(1) [unfolded valid_geometry_def]
  from v assms src_coord_result [of "input_width g" "output_width g" x]
  obtain sx where sx: "src_coord x (x_ratio g) (input_width g) = Inr sx" "0 \<le> sx" "sx < input_width g"
    by auto
  from v assms src_coord_result [of "input_height g" "output_height g" y]
  obtain sy where sy: "src_coord y (y_ratio g) (input_height g) = Inr sy" "0 \<le> sy" "sy < input_height g"
    by auto
  from v have ci: "input_width g * input_height g * channels g < 2 ^ 31"
    and co: "output_width g * output_height g * channels g < 2 ^ 31"
    and ch: "0 < channels g" by simp_all
  note pi = pixel_index_result [OF sy(2,3) sx(2,3) ch ci]
  note po = pixel_index_result [OF assms(4,5) assms(2,3) ch co]
  have off: "pixel_offsets g x y =
     Inr (in_base g + (sy * input_width g + sx) * channels g, dst_offset g x y)"
    using sx(1) sy(1) pi(1) po(1) by (simp add: pixel_offsets_def dst_offset_def Let_def)
  then have so: "src_offset g x y = in_base g + (sy * input_width g + sx) * channels g"
    by (simp add: src_offset_def)
  from v pi(2,3) have "0 \<le> src_offset g x y" "src_offset g x y + channels g \<le> int in_len"
    unfolding so by linarith+
  moreover from v po(2,3) have "0 \<le> dst_offset g x y" "dst_offset g x y + channels g \<le> int out_len"
    unfolding dst_offset_def by linarith+
  ultimately show ?thesis using sx sy off so by blast
qed

lemma dst_offset_Suc: "dst_offset g (x + 1) y = dst_offset g x y + channels g"
  by (simp add: dst_offset_def algebra_simps)

lemma dst_offset_row_end: "dst_offset g (output_width g) y = dst_offset g 0 (y + 1)"
  by (simp add: dst_offset_def algebra_simps)

lemma dst_offset_mono:
  assumes "0 < channels g" "x \<le> x'"
  shows "dst_offset g x y + (x' - x) * channels g = dst_offset g x' y"
  by (simp add: dst_offset_def algebra_simps)

lemma resize_row_result:
  assumes "valid_geometry g (length inp) (length out)" "0 \<le> y" "y < output_height g" "0 \<le> x"
  shows "\<exists>out'. resize_row g inp y x out = Inr out' \<and> length out' = length out \<and>
           (\<forall>x' c. x \<le> x' \<and> x' < output_width g \<and> 0 \<le> c \<and> c < channels g \<longrightarrow>
              out' ! nat (dst_offset g x' y + c) = inp ! nat (src_offset g x' y + c)) \<and>
           (\<forall>k. int k < dst_offset g x y \<or> dst_offset g (output_width g) y \<le> int k \<longrightarrow>
              out' ! k = out ! k)"
  using assms
proof (induction g inp y x out rule: resize_row.induct)
  case (1 g inp y x out)
  note unfold = resize_row.simps [of g inp y x out]
  show ?case
  proof (cases "x < output_width g")
    case False
    then show ?thesis by (subst unfold) auto
  next
    case run: True
    let ?S = "src_offset g x y"
    let ?D = "dst_offset g x y"
    let ?ch = "channels g"
    from "1.prems"(1) have ch: "0 < ?ch" by (simp add: valid_geometry_def)
    from pixel_offsets_result [OF "1.prems"(1,4) run "1.prems"(2,3)]
    have po: "pixel_offsets g x y = Inr (?S, ?D)"
      and sb: "0 \<le> ?S" "?S + ?ch \<le> int (length inp)"
      and db: "0 \<le> ?D" "?D + ?ch \<le> int (length out)"
      by auto
    from copy_pixel_result [OF _ sb db, of 0]
    obtain out1 where cp: "copy_pixel inp ?S ?D ?ch 0 out = Inr out1"
      and len1: "length out1 = length out"
      and c1: "\<forall>k. out1 ! k =
         (if ?D \<le> int k \<and> int k < ?D + ?ch then inp ! nat (?S + (int k - ?D)) else out ! k)"
      by auto
    from "1.prems"(1) len1 have v1: "valid_geometry g (length inp) (length out1)" by simp
    from "1.prems"(4) have x1: "0 \<le> x + 1" by simp
    from "1.IH" [OF run po refl cp v1 "1.prems"(2,3) x1]
    obtain out' where res: "resize_row g inp y (x + 1) out1 = Inr out'"
      and len: "length out' = length out1"
      and cont: "\<forall>x' c. x + 1 \<le> x' \<and> x' < output_width g \<and> 0 \<le> c \<and> c < ?ch \<longrightarrow>
              out' ! nat (dst_offset g x' y + c) = inp ! nat (src_offset g x' y + c)"
      and frame: "\<forall>k. int k < dst_offset g (x + 1) y \<or> dst_offset g (output_width g) y \<le> int k \<longrightarrow>
              out' ! k = out1 ! k"
      by blast
    have next_d: "dst_offset g (x + 1) y = ?D + ?ch" by (rule dst_offset_Suc)
    have "(1::int) \<le> output_width g - x" using run by simp
    then have "1 * ?ch \<le> (output_width g - x) * ?ch" using ch by (intro mult_right_mono) simp_all
    with dst_offset_mono [OF ch, of x "output_width g" y] run
    have end_d: "?D + ?ch \<le> dst_offset g (output_width g) y" by simp
    have content: "out' ! nat (dst_offset g x' y + c) = inp ! nat (src_offset g x' y + c)"
      if h: "x \<le> x' \<and> x' < output_width g \<and> 0 \<le> c \<and> c < ?ch" for x' c
    proof (cases "x' = x")
      case False
      with h cont show ?thesis by simp
    next
      case True
      let ?k = "nat (?D + c)"
      from h db have k: "int ?k = ?D + c" by simp
      with h next_d frame have "out' ! ?k = out1 ! ?k" by simp
      also from c1 k h have "\<dots> = inp ! nat (?S + c)" by simp
      finally show ?thesis using True by simp
    qed
    have fr: "out' ! k = out ! k"
      if h: "int k < ?D \<or> dst_offset g (output_width g) y \<le> int k" for k
    proof -
      from h ch next_d have "int k < dst_offset g (x + 1) y \<or> dst_offset g (output_width g) y \<le> int k"
        by linarith
      with frame have "out' ! k = out1 ! k" by blast
      also from h end_d c1 have "\<dots> = out ! k" by auto
      finally show ?thesis .
    qed
    from res len len1 content fr run po cp show ?thesis
      by (subst unfold) simp
  qed
qed

lemma dst_offset_rows:
  assumes "0 < output_width g" "0 < channels g" "y \<le> y'"
  shows "dst_offset g 0 y \<le> dst_offset g 0 y'"
proof -
  from assms have "y * output_width g \<le> y' * output_width g"
    by (intro mult_right_mono) simp_all
  moreover have "0 \<le> channels g" using assms(2) by simp
  ultimately have "(y * output_width g) * channels g \<le> (y' * output_width g) * channels g"
    by (rule mult_right_mono)
  then show ?thesis by (simp add: dst_offset_def)
qed

lemma dst_offset_in_row:
  assumes "0 < channels g" "x < output_width g" "c < channels g"
  shows "dst_offset g x y + c < dst_offset g (output_width g) y"
proof -
  from assms have "(1::int) \<le> output_width g - x" by simp
  then have "1 * channels g \<le> (output_width g - x) * channels g"
    using assms(1) by (intro mult_right_mono) simp_all
  with dst_offset_mono [OF assms(1), of x "output_width g" y] assms show ?thesis by linarith
qed

lemma dst_offset_nonneg:
  assumes "0 \<le> out_base g" "0 < output_width g" "0 < channels g" "0 \<le> x" "0 \<le> y"
  shows "0 \<le> dst_offset g x y"
  using assms by (simp add: dst_offset_def)

lemma resize_rows_result:
  assumes "valid_geometry g (length inp) (length out)" "0 \<le> y"
  shows "\<exists>out'. resize_rows g inp y out = Inr out' \<and> length out' = length out \<and>
           (\<forall>x' y' c. y \<le> y' \<and> y' < output_height g \<and> 0 \<le> x' \<and> x' < output_width g \<and>
                0 \<le> c \<and> c < channels g \<longrightarrow>
              out' ! nat (dst_offset g x' y' + c) = inp ! nat (src_offset g x' y' + c)) \<and>
           (\<forall>k. int k < dst_offset g 0 y \<or> dst_offset g 0 (output_height g) \<le> int k \<longrightarrow>
              out' ! k = out ! k)"
  using assms
proof (induction g inp y out rule: resize_rows.induct)
  case (1 g inp y out)
  note unfold = resize_rows.simps [of g inp y out]
  show ?case
  proof (cases "y < output_height g")
    case False
    then show ?thesis by (subst unfold) auto
  next
    case run: True
    from "1.prems"(1) have ch: "0 < channels g" and ow: "0 < output_width g"
      and ob: "0 \<le> out_base g"
      by (simp_all add: valid_geometry_def)
    from resize_row_result [OF "1.prems"(1,2) run, of 0]
    obtain out1 where row: "resize_row g inp y 0 out = Inr out1"
      and len1: "length out1 = length out"
      and c1: "\<forall>x' c. 0 \<le> x' \<and> x' < output_width g \<and> 0 \<le> c \<and> c < channels g \<longrightarrow>
              out1 ! nat (dst_offset g x' y + c) = inp ! nat (src_offset g x' y + c)"
      and f1: "\<forall>k. int k < dst_offset g 0 y \<or> dst_offset g (output_width g) y \<le> int k \<longrightarrow>
              out1 ! k = out ! k"
      by auto
    from "1.prems"(1) len1 have v1: "valid_geometry g (length inp) (length out1)" by simp
    from "1.prems"(2) have y1: "0 \<le> y + 1" by simp
    from "1.IH" [OF run row v1 y1]
    obtain out' where res: "resize_rows g inp (y + 1) out1 = Inr out'"
      and len: "length out' = length out1"
      and cont: "\<forall>x' y' c. y + 1 \<le> y' \<and> y' < output_height g \<and> 0 \<le> x' \<and> x' < output_width g \<and>
                0 \<le> c \<and> c < channels g \<longrightarrow>
              out' ! nat (dst_offset g x' y' + c) = inp ! nat (src_offset g x' y' + c)"
      and frame: "\<forall>k. int k < dst_offset g 0 (y + 1) \<or> dst_offset g 0 (output_height g) \<le> int k \<longrightarrow>
              out' ! k = out1 ! k"
      by blast
    note row_end = dst_offset_row_end [of g y]
    have content: "out' ! nat (dst_offset g x' y' + c) = inp ! nat (src_offset g x' y' + c)"
      if h: "y \<le> y' \<and> y' < output_height g \<and> 0 \<le> x' \<and> x' < output_width g \<and>
                0 \<le> c \<and> c < channels g" for x' y' c
    proof (cases "y' = y")
      case False
      with h cont show ?thesis by simp
    next
      case True
      let ?k = "nat (dst_offset g x' y + c)"
      from dst_offset_nonneg [OF ob ow ch, of x' y] h "1.prems"(2)
      have k: "int ?k = dst_offset g x' y + c" by simp
      from dst_offset_in_row [OF ch, of x' c y] h row_end
      have "int ?k < dst_offset g 0 (y + 1)" unfolding k by simp
      with frame have "out' ! ?k = out1 ! ?k" by blast
      also from c1 h have "\<dots> = inp ! nat (src_offset g x' y + c)" by simp
      finally show ?thesis using True by simp
    qed
    have fr: "out' ! k = out ! k"
      if h: "int k < dst_offset g 0 y \<or> dst_offset g 0 (output_height g) \<le> int k" for k
    proof -
      from dst_offset_rows [OF ow ch, of y "y + 1"]
      have m1: "dst_offset g 0 y \<le> dst_offset g 0 (y + 1)" by simp
      from dst_offset_rows [OF ow ch, of "y + 1" "output_height g"] run
      have m2: "dst_offset g 0 (y + 1) \<le> dst_offset g 0 (output_height g)" by simp
      from h m1 have "int k < dst_offset g 0 (y + 1) \<or> dst_offset g 0 (output_height g) \<le> int k"
        by linarith
      with frame have "out' ! k = out1 ! k" by blast
      also from h m2 row_end have "int k < dst_offset g 0 y \<or> dst_offset g (output_width g) y \<le> int k"
        by linarith
      with f1 have "out1 ! k = out ! k" by blast
      finally show ?thesis .
    qed
    from res len len1 content fr run row show ?thesis
      by (subst unfold) simp
  qed
qed

lemma resize_image_result:
  assumes "0 < iw" "iw < 2 ^ 26" "0 < ih" "ih < 2 ^ 26" "0 < ow" "0 < oh" "0 < chans"
    and "iw * ih * chans \<le> int (length inp)" "ow * oh * chans \<le> int (length out)"
    and "int (length inp) < 2 ^ 31" "int (length out) < 2 ^ 31"
  shows "\<exists>out'. resize_image (Buf inp) iw ih (Buf out) ow oh chans = Inr (0, Buf out') \<and>
           length out' = length out \<and>
           (\<forall>x y c. 0 \<le> x \<and> x < ow \<and> 0 \<le> y \<and> y < oh \<and> 0 \<le> c \<and> c < chans \<longrightarrow>
              (\<exists>sx sy. src_coord x (f32_div (i2f iw) (i2f ow)) iw = Inr sx \<and>
                 src_coord y (f32_div (i2f ih) (i2f oh)) ih = Inr sy \<and>
                 0 \<le> sx \<and> sx < iw \<and> 0 \<le> sy \<and> sy < ih \<and>
                 out' ! nat ((y * ow + x) * chans + c) = inp ! nat ((sy * iw + sx) * chans + c))) \<and>
           (\<forall>k. ow * oh * chans \<le> int k \<longrightarrow> out' ! k = out ! k)"
proof -
  define g where "g = \<lparr>input_width = iw, input_height = ih, output_width = ow,
                     output_height = oh, channels = chans,
                     x_ratio = f32_div (i2f iw) (i2f ow), y_ratio = f32_div (i2f ih) (i2f oh),
                     in_base = 0, out_base = 0\<rparr>"
  have gs: "input_width g = iw" "input_height g = ih" "output_width g = ow"
    "output_height g = oh" "channels g = chans" "x_ratio g = f32_div (i2f iw) (i2f ow)"
    "y_ratio g = f32_div (i2f ih) (i2f oh)" "in_base g = 0" "out_base g = 0"
    by (simp_all add: g_def)
  from assms have v: "valid_geometry g (length inp) (length out)"
    unfolding valid_geometry_def gs by simp
  from resize_rows_result [OF v, of 0]
  obtain out' where res: "resize_rows g inp 0 out = Inr out'"
    and len: "length out' = length out"
    and cont: "\<forall>x' y' c. 0 \<le> y' \<and> y' < oh \<and> 0 \<le> x' \<and> x' < ow \<and> 0 \<le> c \<and> c < chans \<longrightarrow>
              out' ! nat (dst_offset g x' y' + c) = inp ! nat (src_offset g x' y' + c)"
    and frame: "\<forall>k. int k < dst_offset g 0 0 \<or> dst_offset g 0 oh \<le> int k \<longrightarrow> out' ! k = out ! k"
    unfolding gs by auto
  have px: "\<exists>sx sy. src_coord x (f32_div (i2f iw) (i2f ow)) iw = Inr sx \<and>
                 src_coord y (f32_div (i2f ih) (i2f oh)) ih = Inr sy \<and>
                 0 \<le> sx \<and> sx < iw \<and> 0 \<le> sy \<and> sy < ih \<and>
                 out' ! nat ((y * ow + x) * chans + c) = inp ! nat ((sy * iw + sx) * chans + c)"
    if h: "0 \<le> x \<and> x < ow \<and> 0 \<le> y \<and> y < oh \<and> 0 \<le> c \<and> c < chans" for x y c
  proof -
    from h gs have hx: "0 \<le> x" "x < output_width g" "0 \<le> y" "y < output_height g" by simp_all
    from pixel_offsets_result [OF v hx]
    obtain sx sy where "src_coord x (f32_div (i2f iw) (i2f ow)) iw = Inr sx"
      "src_coord y (f32_div (i2f ih) (i2f oh)) ih = Inr sy"
      "0 \<le> sx" "sx < iw" "0 \<le> sy" "sy < ih"
      and so: "src_offset g x y = (sy * iw + sx) * chans"
      unfolding gs by auto
    moreover from cont h have "out' ! nat (dst_offset g x y + c) = inp ! nat (src_offset g x y + c)"
      by simp
    then have "out' ! nat ((y * ow + x) * chans + c) = inp ! nat ((sy * iw + sx) * chans + c)"
      unfolding so by (simp add: dst_offset_def gs)
    ultimately show ?thesis by blast
  qed
  have fr: "out' ! k = out ! k" if "ow * oh * chans \<le> int k" for k
  proof -
    have "dst_offset g 0 oh = ow * oh * chans" by (simp add: dst_offset_def gs mult.commute)
    with that frame show ?thesis by simp
  qed
  from assms res have "resize_image (Buf inp) iw ih (Buf out) ow oh chans = Inr (0, Buf out')"
    by (simp add: resize_image_def g_def [symmetric] Let_def)
  with len px fr show ?thesis by blast
qed

lemma src_coord_41: "src_coord 41 (f32_div (i2f 2) (i2f 82)) 2 = Inr 0"
  by code_simp

lemma src_coord_0: "src_coord 0 (f32_div (i2f 1) (i2f 1)) 1 = Inr 0"
  by code_simp

text \<open>
  C5 (as stated): output pixel \<open>x\<close> samples the input at
  \<open>clamp (floor (x * src_w / dst_w)) 0 (src_w - 1)\<close>. The coordinate is computed in single
  precision: enlarging a row of 2 pixels to 82, the ratio \<^verbatim>\<open>(float)2 / 82\<close> is rounded
  down, \<^verbatim>\<open>41 * ratio\<close> falls just below 1, and output pixel 41 samples input pixel 0
  where the formula says pixel 1.
\<close>

theorem resize_float_coordinate_counterexample:
  "map_option (\<lambda>out. out ! 41)
     (output_of (resize_image (Buf [10, 20]) 2 1 (Buf (replicate 82 0)) 82 1 1)) = Some 10 \<and>
   [10, 20 :: byte] ! nat (min (max \<lfloor>41 * 2 / 82 :: rat\<rfloor> 0) (2 - 1)) = 20"
proof -
  from resize_image_result [of 2 1 82 1 1 "[10, 20]" "replicate 82 0"]
  obtain out' where res: "resize_image (Buf [10, 20]) 2 1 (Buf (replicate 82 0)) 82 1 1 = Inr (0, Buf out')"
    and px: "\<forall>x y c. 0 \<le> x \<and> x < 82 \<and> 0 \<le> y \<and> y < 1 \<and> 0 \<le> c \<and> c < 1 \<longrightarrow>
              (\<exists>sx sy. src_coord x (f32_div (i2f 2) (i2f 82)) 2 = Inr sx \<and>
                 src_coord y (f32_div (i2f 1) (i2f 1)) 1 = Inr sy \<and>
                 0 \<le> sx \<and> sx < 2 \<and> 0 \<le> sy \<and> sy < 1 \<and>
                 out' ! nat ((y * 82 + x) * 1 + c) = [10, 20] ! nat ((sy * 2 + sx) * 1 + c))"
    by auto
  from px [rule_format, of 41 0 0] src_coord_41 src_coord_0
  have "out' ! 41 = 10" by simp
  with res have "map_option (\<lambda>out. out ! 41)
     (output_of (resize_image (Buf [10, 20]) 2 1 (Buf (replicate 82 0)) 82 1 1)) = Some 10"
    by (simp add: output_of_def)
  moreover have "[10, 20 :: byte] ! nat (min (max \<lfloor>41 * 2 / 82 :: rat\<rfloor> 0) (2 - 1)) = 20"
    by simp
  ultimately show ?thesis by simp
qed

lemma resize_frames_result:
  assumes "\<forall>f'. 0 \<le> f' \<and> f' < n \<longrightarrow>
      valid_geometry (g\<lparr>in_base := f' * ifs, out_base := f' * ofs\<rparr>) (length inp) (length out)"
    and "ofs = output_width g * output_height g * channels g"
    and "int (length inp) < 2 ^ 31" "int (length out) < 2 ^ 31" "0 \<le> f"
  shows "\<exists>out'. resize_frames g inp ifs ofs n f out = Inr out' \<and> length out' = length out \<and>
           (\<forall>f' x y c. f \<le> f' \<and> f' < n \<and> 0 \<le> x \<and> x < output_width g \<and>
                0 \<le> y \<and> y < output_height g \<and> 0 \<le> c \<and> c < channels g \<longrightarrow>
              out' ! nat (dst_offset (g\<lparr>in_base := f' * ifs, out_base := f' * ofs\<rparr>) x y + c) =
              inp ! nat (src_offset (g\<lparr>in_base := f' * ifs, out_base := f' * ofs\<rparr>) x y + c)) \<and>
           (\<forall>k. int k < f * ofs \<or> n * ofs \<le> int k \<longrightarrow> out' ! k = out ! k)"
  using assms
proof (induction g inp ifs ofs n f out rule: resize_frames.induct)
  case (1 g inp ifs ofs n f out)
  note unfold = resize_frames.simps [of g inp ifs ofs n f out]
  show ?case
  proof (cases "f < n")
    case False
    then show ?thesis by (subst unfold) auto
  next
    case run: True
    let ?g = "g\<lparr>in_base := f * ifs, out_base := f * ofs\<rparr>"
    from "1.prems"(1,5) run have v: "valid_geometry ?g (length inp) (length out)" by simp
    note vd = v [unfolded valid_geometry_def, simplified]
    from vd have ch: "0 < channels g" and ow: "0 < output_width g" and oh: "0 < output_height g"
      by simp_all
    from ow oh have "0 < output_width g * output_height g" by simp
    with ch "1.prems"(2) have ofs0: "0 \<le> ofs" by simp
    from vd have ib: "0 \<le> f * ifs"
      "f * ifs + input_width g * input_height g * channels g \<le> int (length inp)"
      and ob: "0 \<le> f * ofs"
      "f * ofs + output_width g * output_height g * channels g \<le> int (length out)"
      by simp_all
    from vd have ipos: "0 < input_width g * input_height g * channels g"
      and opos: "0 < output_width g * output_height g * channels g"
      by simp_all
    from ib ipos "1.prems"(3) have "s32 (f * ifs) = f * ifs"
      by (intro s32_id) linarith+
    moreover from ob opos "1.prems"(4) have "s32 (f * ofs) = f * ofs"
      by (intro s32_id) linarith+
    ultimately have geq: "g\<lparr>in_base := s32 (f * ifs), out_base := s32 (f * ofs)\<rparr> = ?g" by simp
    have d0: "dst_offset ?g 0 0 = f * ofs" by (simp add: dst_offset_def)
    have dend: "dst_offset ?g 0 (output_height g) = (f + 1) * ofs"
      using "1.prems"(2) by (simp add: dst_offset_def algebra_simps)
    from resize_rows_result [OF v, of 0]
    obtain out1 where rows: "resize_rows ?g inp 0 out = Inr out1"
      and len1: "length out1 = length out"
      and c1raw: "\<forall>x' y' c. 0 \<le> y' \<and> y' < output_height ?g \<and> 0 \<le> x' \<and> x' < output_width ?g \<and>
                0 \<le> c \<and> c < channels ?g \<longrightarrow>
              out1 ! nat (dst_offset ?g x' y' + c) = inp ! nat (src_offset ?g x' y' + c)"
      and f1raw: "\<forall>k. int k < dst_offset ?g 0 0 \<or> dst_offset ?g 0 (output_height ?g) \<le> int k \<longrightarrow>
              out1 ! k = out ! k"
      by blast
    from c1raw have c1: "\<forall>x' y' c. 0 \<le> y' \<and> y' < output_height g \<and> 0 \<le> x' \<and> x' < output_width g \<and>
                0 \<le> c \<and> c < channels g \<longrightarrow>
              out1 ! nat (dst_offset ?g x' y' + c) = inp ! nat (src_offset ?g x' y' + c)"
      by simp
    have f1: "\<forall>k. int k < f * ofs \<or> (f + 1) * ofs \<le> int k \<longrightarrow> out1 ! k = out ! k"
    proof (intro allI impI)
      fix k assume "int k < f * ofs \<or> (f + 1) * ofs \<le> int k"
      with d0 dend have "int k < dst_offset ?g 0 0 \<or> dst_offset ?g 0 (output_height ?g) \<le> int k"
        by simp
      with f1raw show "out1 ! k = out ! k" by blast
    qed
    from rows geq have rows': "resize_rows (g\<lparr>in_base := s32 (f * ifs), out_base := s32 (f * ofs)\<rparr>)
        inp 0 out = Inr out1" by simp
    from "1.prems"(1) len1 have v1: "\<forall>f'. 0 \<le> f' \<and> f' < n \<longrightarrow>
      valid_geometry (g\<lparr>in_base := f' * ifs, out_base := f' * ofs\<rparr>) (length inp) (length out1)"
      by simp
    from "1.prems"(4) len1 have l1: "int (length out1) < 2 ^ 31" by simp
    from "1.prems"(5) have fp: "0 \<le> f + 1" by simp
    from "1.IH" [OF run rows' v1 "1.prems"(2,3) l1 fp]
    obtain out' where res: "resize_frames g inp ifs ofs n (f + 1) out1 = Inr out'"
      and len: "length out' = length out1"
      and cont: "\<forall>f' x y c. f + 1 \<le> f' \<and> f' < n \<and> 0 \<le> x \<and> x < output_width g \<and>
                0 \<le> y \<and> y < output_height g \<and> 0 \<le> c \<and> c < channels g \<longrightarrow>
              out' ! nat (dst_offset (g\<lparr>in_base := f' * ifs, out_base := f' * ofs\<rparr>) x y + c) =
              inp ! nat (src_offset (g\<lparr>in_base := f' * ifs, out_base := f' * ofs\<rparr>) x y + c)"
      and frame: "\<forall>k. int k < (f + 1) * ofs \<or> n * ofs \<le> int k \<longrightarrow> out' ! k = out1 ! k"
      by blast
    have content: "out' ! nat (dst_offset (g\<lparr>in_base := f' * ifs, out_base := f' * ofs\<rparr>) x y + c) =
              inp ! nat (src_offset (g\<lparr>in_base := f' * ifs, out_base := f' * ofs\<rparr>) x y + c)"
      if h: "f \<le> f' \<and> f' < n \<and> 0 \<le> x \<and> x < output_width g \<and>
                0 \<le> y \<and> y < output_height g \<and> 0 \<le> c \<and> c < channels g" for f' x y c
    proof (cases "f' = f")
      case False
      with h cont show ?thesis by simp
    next
      case True
      let ?k = "nat (dst_offset ?g x y + c)"
      have gch: "0 < channels ?g" "0 < output_width ?g" "0 \<le> out_base ?g"
        using ch ow vd by simp_all
      from dst_offset_nonneg [OF gch(3,2,1), of x y] h
      have k: "int ?k = dst_offset ?g x y + c" by simp
      from dst_offset_in_row [OF gch(1), of x c y] h
      have "dst_offset ?g x y + c < dst_offset ?g 0 (y + 1)"
        by (simp add: dst_offset_row_end [of ?g y, simplified])
      also from dst_offset_rows [OF gch(2,1), of "y + 1" "output_height g"] h
      have "\<dots> \<le> dst_offset ?g 0 (output_height g)" by simp
      finally have "int ?k < (f + 1) * ofs" unfolding k dend .
      with frame have "out' ! ?k = out1 ! ?k" by blast
      also from c1 h have "\<dots> = inp ! nat (src_offset ?g x y + c)" by simp
      finally show ?thesis using True by simp
    qed
    have fr: "out' ! k = out ! k" if h: "int k < f * ofs \<or> n * ofs \<le> int k" for k
    proof -
      have m1: "f * ofs \<le> (f + 1) * ofs" using ofs0 by (simp add: algebra_simps)
      from run have "f + 1 \<le> n" by simp
      then have m2: "(f + 1) * ofs \<le> n * ofs" using ofs0 by (rule mult_right_mono)
      from h m1 have "int k < (f + 1) * ofs \<or> n * ofs \<le> int k" by linarith
      with frame have "out' ! k = out1 ! k" by blast
      also from h m2 have "int k < f * ofs \<or> (f + 1) * ofs \<le> int k" by linarith
      with f1 have "out1 ! k = out ! k" by blast
      finally show ?thesis .
    qed
    from res len len1 content fr run rows' show ?thesis
      by (subst unfold) simp
  qed
qed

lemma resize_video_frames_result:
  assumes "0 < iw" "iw < 2 ^ 26" "0 < ih" "ih < 2 ^ 26" "0 < ow" "0 < oh" "0 < num_frames"
    and "num_frames * (iw * ih * 3) \<le> int (length inp)"
    and "num_frames * (ow * oh * 3) \<le> int (length out)"
    and "int (length inp) < 2 ^ 31" "int (length out) < 2 ^ 31"
  shows "\<exists>out'. resize_video_frames (Buf inp) iw ih (Buf out) ow oh num_frames = Inr (0, Buf out') \<and>
           length out' = length out \<and>
           (\<forall>f x y c. 0 \<le> f \<and> f < num_frames \<and> 0 \<le> x \<and> x < ow \<and> 0 \<le> y \<and> y < oh \<and>
                0 \<le> c \<and> c < 3 \<longrightarrow>
              (\<exists>sx sy. src_coord x (f32_div (i2f iw) (i2f ow)) iw = Inr sx \<and>
                 src_coord y (f32_div (i2f ih) (i2f oh)) ih = Inr sy \<and>
                 0 \<le> sx \<and> sx < iw \<and> 0 \<le> sy \<and> sy < ih \<and>
                 out' ! nat (f * (ow * oh * 3) + (y * ow + x) * 3 + c) =
                 inp ! nat (f * (iw * ih * 3) + (sy * iw + sx) * 3 + c))) \<and>
           (\<forall>k. num_frames * (ow * oh * 3) \<le> int k \<longrightarrow> out' ! k = out ! k)"
proof -
  define ifs where "ifs = iw * ih * 3"
  define ofs where "ofs = ow * oh * 3"
  define g where "g = \<lparr>input_width = iw, input_height = ih, output_width = ow,
                     output_height = oh, channels = 3,
                     x_ratio = f32_div (i2f iw) (i2f ow), y_ratio = f32_div (i2f ih) (i2f oh),
                     in_base = 0, out_base = 0\<rparr>"
  have gs: "input_width g = iw" "input_height g = ih" "output_width g = ow"
    "output_height g = oh" "channels g = 3" "x_ratio g = f32_div (i2f iw) (i2f ow)"
    "y_ratio g = f32_div (i2f ih) (i2f oh)"
    by (simp_all add: g_def)
  from assms have ipos: "0 < iw * ih" and opos: "0 < ow * oh" by simp_all
  then have ifs0: "0 < ifs" and ofs0: "0 < ofs" by (simp_all add: ifs_def ofs_def)
  from assms(7) have "1 \<le> num_frames" by simp
  then have one: "1 * ifs \<le> num_frames * ifs" "1 * ofs \<le> num_frames * ofs"
    using ifs0 ofs0 by (intro mult_right_mono; simp)+
  from assms(8,9) have tot: "num_frames * ifs \<le> int (length inp)"
    "num_frames * ofs \<le> int (length out)"
    by (simp_all add: ifs_def ofs_def)
  from one tot assms(10,11) have small: "ifs < 2 ^ 31" "ofs < 2 ^ 31"
    by linarith+
  have "iw * ih \<le> ifs" "ow * oh \<le> ofs" using ipos opos unfolding ifs_def ofs_def by linarith+
  with small ipos opos have "s32 (iw * ih) = iw * ih" "s32 (ow * oh) = ow * oh"
    by (intro s32_id; linarith)+
  moreover from small ifs0 ofs0 have "s32 (iw * ih * 3) = ifs" "s32 (ow * oh * 3) = ofs"
    unfolding ifs_def ofs_def by (intro s32_id; linarith)+
  ultimately have sz: "s32 (s32 (iw * ih) * 3) = ifs" "s32 (s32 (ow * oh) * 3) = ofs" by simp_all
  have v: "valid_geometry (g\<lparr>in_base := f * ifs, out_base := f * ofs\<rparr>) (length inp) (length out)"
    if f: "0 \<le> f \<and> f < num_frames" for f
  proof -
    from f have "f + 1 \<le> num_frames" by simp
    then have "(f + 1) * ifs \<le> num_frames * ifs" "(f + 1) * ofs \<le> num_frames * ofs"
      using ifs0 ofs0 by (simp_all add: mult_right_mono)
    with tot have "f * ifs + ifs \<le> int (length inp)" "f * ofs + ofs \<le> int (length out)"
      by (simp_all add: algebra_simps)
    moreover from f ifs0 ofs0 have "0 \<le> f * ifs" "0 \<le> f * ofs" by simp_all
    ultimately show ?thesis
      using assms(1-6) small unfolding valid_geometry_def
      by (simp add: gs ifs_def ofs_def)
  qed
  then have vall: "\<forall>f'. 0 \<le> f' \<and> f' < num_frames \<longrightarrow>
      valid_geometry (g\<lparr>in_base := f' * ifs, out_base := f' * ofs\<rparr>) (length inp) (length out)"
    by blast
  have ofs_eq: "ofs = output_width g * output_height g * channels g"
    by (simp add: gs ofs_def)
  from resize_frames_result [OF vall ofs_eq assms(10,11), of 0]
  obtain out' where res: "resize_frames g inp ifs ofs num_frames 0 out = Inr out'"
    and len: "length out' = length out"
    and cont: "\<forall>f' x y c. 0 \<le> f' \<and> f' < num_frames \<and> 0 \<le> x \<and> x < ow \<and>
                0 \<le> y \<and> y < oh \<and> 0 \<le> c \<and> c < 3 \<longrightarrow>
              out' ! nat (dst_offset (g\<lparr>in_base := f' * ifs, out_base := f' * ofs\<rparr>) x y + c) =
              inp ! nat (src_offset (g\<lparr>in_base := f' * ifs, out_base := f' * ofs\<rparr>) x y + c)"
    and frame: "\<forall>k. int k < 0 * ofs \<or> num_frames * ofs \<le> int k \<longrightarrow> out' ! k = out ! k"
    unfolding gs by blast
  have px: "\<exists>sx sy. src_coord x (f32_div (i2f iw) (i2f ow)) iw = Inr sx \<and>
                 src_coord y (f32_div (i2f ih) (i2f oh)) ih = Inr sy \<and>
                 0 \<le> sx \<and> sx < iw \<and> 0 \<le> sy \<and> sy < ih \<and>
                 out' ! nat (f * (ow * oh * 3) + (y * ow + x) * 3 + c) =
                 inp ! nat (f * (iw * ih * 3) + (sy * iw + sx) * 3 + c)"
    if h: "0 \<le> f \<and> f < num_frames \<and> 0 \<le> x \<and> x < ow \<and> 0 \<le> y \<and> y < oh \<and> 0 \<le> c \<and> c < 3"
    for f x y c
  proof -
    let ?g = "g\<lparr>in_base := f * ifs, out_base := f * ofs\<rparr>"
    from h have hx: "0 \<le> x" "x < output_width ?g" "0 \<le> y" "y < output_height ?g"
      by (simp_all add: gs)
    from h have vf: "valid_geometry ?g (length inp) (length out)" by (intro v) simp
    from pixel_offsets_result [OF vf hx]
    obtain sx sy where "src_coord x (f32_div (i2f iw) (i2f ow)) iw = Inr sx"
      "src_coord y (f32_div (i2f ih) (i2f oh)) ih = Inr sy"
      "0 \<le> sx" "sx < iw" "0 \<le> sy" "sy < ih"
      and so: "src_offset ?g x y = f * ifs + (sy * iw + sx) * 3"
      by (auto simp: gs)
    moreover from cont h have "out' ! nat (dst_offset ?g x y + c) = inp ! nat (src_offset ?g x y + c)"
      by simp
    then have "out' ! nat (f * (ow * oh * 3) + (y * ow + x) * 3 + c) =
                 inp ! nat (f * (iw * ih * 3) + (sy * iw + sx) * 3 + c)"
      unfolding so by (simp add: dst_offset_def gs ifs_def ofs_def)
    ultimately show ?thesis by blast
  qed
  have fr: "out' ! k = out ! k" if "num_frames * (ow * oh * 3) \<le> int k" for k
    using that frame by (simp add: ofs_def)
  from assms res sz have "resize_video_frames (Buf inp) iw ih (Buf out) ow oh num_frames = Inr (0, Buf out')"
    by (simp add: resize_video_frames_def g_def [symmetric] Let_def)
  with len px fr show ?thesis by blast
qed

text \<open>
  C5 (amended): for a well-formed call (positive dimensions, input dimensions below
  \<open>2 ^ 26\<close>, buffers that hold the frames and are shorter than \<open>2 ^ 31\<close> bytes) the resize
  functions run without a fault, write every pixel of the \<open>w \<times> h\<close> output grid (of every
  frame) and nothing behind it, and output pixel \<open>(x, y)\<close> is a copy of input pixel
  \<open>(sx, sy)\<close>, where \<open>sx\<close> is \<^verbatim>\<open>(int)(x * x_ratio)\<close> computed in single precision with
  \<^verbatim>\<open>x_ratio = (float)src_w / dst_w\<close> and clamped to the last column \<open>src_w - 1\<close>, and \<open>sy\<close>
  likewise: the coordinate is the float one, not the exact \<open>floor (x * src_w / dst_w)\<close>.
\<close>

theorem resize_samples_float_coordinate:
  "(0 < iw \<and> iw < 2 ^ 26 \<and> 0 < ih \<and> ih < 2 ^ 26 \<and> 0 < ow \<and> 0 < oh \<and> 0 < chans \<and>
    iw * ih * chans \<le> int (length inp) \<and> ow * oh * chans \<le> int (length out) \<and>
    int (length inp) < 2 ^ 31 \<and> int (length out) < 2 ^ 31 \<longrightarrow>
      (\<exists>out'. resize_image (Buf inp) iw ih (Buf out) ow oh chans = Inr (0, Buf out') \<and>
           length out' = length out \<and>
           (\<forall>x y c. 0 \<le> x \<and> x < ow \<and> 0 \<le> y \<and> y < oh \<and> 0 \<le> c \<and> c < chans \<longrightarrow>
              (\<exists>sx sy. src_coord x (f32_div (i2f iw) (i2f ow)) iw = Inr sx \<and>
                 src_coord y (f32_div (i2f ih) (i2f oh)) ih = Inr sy \<and>
                 0 \<le> sx \<and> sx < iw \<and> 0 \<le> sy \<and> sy < ih \<and>
                 out' ! nat ((y * ow + x) * chans + c) = inp ! nat ((sy * iw + sx) * chans + c))) \<and>
           (\<forall>k. ow * oh * chans \<le> int k \<longrightarrow> out' ! k = out ! k))) \<and>
   (0 < iw \<and> iw < 2 ^ 26 \<and> 0 < ih \<and> ih < 2 ^ 26 \<and> 0 < ow \<and> 0 < oh \<and> 0 < num_frames \<and>
    num_frames * (iw * ih * 3) \<le> int (length vin) \<and>
    num_frames * (ow * oh * 3) \<le> int (length vout) \<and>
    int (length vin) < 2 ^ 31 \<and> int (length vout) < 2 ^ 31 \<longrightarrow>
      (\<exists>out'. resize_video_frames (Buf vin) iw ih (Buf vout) ow oh num_frames = Inr (0, Buf out') \<and>
           length out' = length vout \<and>
           (\<forall>f x y c. 0 \<le> f \<and> f < num_frames \<and> 0 \<le> x \<and> x < ow \<and> 0 \<le> y \<and> y < oh \<and>
                0 \<le> c \<and> c < 3 \<longrightarrow>
              (\<exists>sx sy. src_coord x (f32_div (i2f iw) (i2f ow)) iw = Inr sx \<and>
                 src_coord y (f32_div (i2f ih) (i2f oh)) ih = Inr sy \<and>
                 0 \<le> sx \<and> sx < iw \<and> 0 \<le> sy \<and> sy < ih \<and>
                 out' ! nat (f * (ow * oh * 3) + (y * ow + x) * 3 + c) =
                 vin ! nat (f * (iw * ih * 3) + (sy * iw + sx) * 3 + c))) \<and>
           (\<forall>k. num_frames * (ow * oh * 3) \<le> int k \<longrightarrow> out' ! k = vout ! k)))"
proof (intro conjI impI)
  assume h: "0 < iw \<and> iw < 2 ^ 26 \<and> 0 < ih \<and> ih < 2 ^ 26 \<and> 0 < ow \<and> 0 < oh \<and> 0 < chans \<and>
    iw * ih * chans \<le> int (length inp) \<and> ow * oh * chans \<le> int (length out) \<and>
    int (length inp) < 2 ^ 31 \<and> int (length out) < 2 ^ 31"
  then have "0 < iw" "iw < 2 ^ 26" "0 < ih" "ih < 2 ^ 26" "0 < ow" "0 < oh" "0 < chans"
    "iw * ih * chans \<le> int (length inp)" "ow * oh * chans \<le> int (length out)"
    "int (length inp) < 2 ^ 31" "int (length out) < 2 ^ 31"
    by blast+
  then show "\<exists>out'. resize_image (Buf inp) iw ih (Buf out) ow oh chans = Inr (0, Buf out') \<and>
           length out' = length out \<and>
           (\<forall>x y c. 0 \<le> x \<and> x < ow \<and> 0 \<le> y \<and> y < oh \<and> 0 \<le> c \<and> c < chans \<longrightarrow>
              (\<exists>sx sy. src_coord x (f32_div (i2f iw) (i2f ow)) iw = Inr sx \<and>
                 src_coord y (f32_div (i2f ih) (i2f oh)) ih = Inr sy \<and>
                 0 \<le> sx \<and> sx < iw \<and> 0 \<le> sy \<and> sy < ih \<and>
                 out' ! nat ((y * ow + x) * chans + c) = inp ! nat ((sy * iw + sx) * chans + c))) \<and>
           (\<forall>k. ow * oh * chans \<le> int k \<longrightarrow> out' ! k = out ! k)"
    by (rule resize_image_result)
next
  assume h: "0 < iw \<and> iw < 2 ^ 26 \<and> 0 < ih \<and> ih < 2 ^ 26 \<and> 0 < ow \<and> 0 < oh \<and> 0 < num_frames \<and>
    num_frames * (iw * ih * 3) \<le> int (length vin) \<and>
    num_frames * (ow * oh * 3) \<le> int (length vout) \<and>
    int (length vin) < 2 ^ 31 \<and> int (length vout) < 2 ^ 31"
  then have "0 < iw" "iw < 2 ^ 26" "0 < ih" "ih < 2 ^ 26" "0 < ow" "0 < oh" "0 < num_frames"
    "num_frames * (iw * ih * 3) \<le> int (length vin)"
    "num_frames * (ow * oh * 3) \<le> int (length vout)"
    "int (length vin) < 2 ^ 31" "int (length vout) < 2 ^ 31"
    by blast+
  then show "\<exists>out'. resize_video_frames (Buf vin) iw ih (Buf vout) ow oh num_frames = Inr (0, Buf out') \<and>
           length out' = length vout \<and>
           (\<forall>f x y c. 0 \<le> f \<and> f < num_frames \<and> 0 \<le> x \<and> x < ow \<and> 0 \<le> y \<and> y < oh \<and>
                0 \<le> c \<and> c < 3 \<longrightarrow>
              (\<exists>sx sy. src_coord x (f32_div (i2f iw) (i2f ow)) iw = Inr sx \<and>
                 src_coord y (f32_div (i2f ih) (i2f oh)) ih = Inr sy \<and>
                 0 \<le> sx \<and> sx < iw \<and> 0 \<le> sy \<and> sy < ih \<and>
                 out' ! nat (f * (ow * oh * 3) + (y * ow + x) * 3 + c) =
                 vin ! nat (f * (iw * ih * 3) + (sy * iw + sx) * 3 + c))) \<and>
           (\<forall>k. num_frames * (ow * oh * 3) \<le> int k \<longrightarrow> out' ! k = vout ! k)"
    by (rule resize_video_frames_result)
qed

lemma src_coord_examples:
  "src_coord 3 (f32_div (i2f 2) (i2f 4)) 2 = Inr 1"
  "src_coord 0 (f32_div (i2f 1) (i2f 1)) 1 = Inr 0"
  "src_coord 0 (f32_div (i2f 2) (i2f 1)) 2 = Inr 0"
  by code_simp+

theorem resize_samples_float_coordinate_witness:
  "(\<exists>out'. resize_image (Buf [1, 2, 3, 4]) 2 2 (Buf (replicate 16 0)) 4 4 1 = Inr (0, Buf out') \<and>
      out' ! 15 = 4) \<and>
   (\<exists>out'. resize_video_frames (Buf [1, 2, 3, 4, 5, 6, 7, 8, 9, 10, 11, 12]) 1 2
        (Buf (replicate 6 0)) 1 1 2 = Inr (0, Buf out') \<and>
      out' ! 3 = 7)"
proof (rule conjI)
  from resize_samples_float_coordinate
    [THEN conjunct1, rule_format, of 2 2 4 4 1 "[1, 2, 3, 4]" "replicate 16 0"]
  obtain out' where res: "resize_image (Buf [1, 2, 3, 4]) 2 2 (Buf (replicate 16 0)) 4 4 1 = Inr (0, Buf out')"
    and px: "\<forall>x y c. 0 \<le> x \<and> x < 4 \<and> 0 \<le> y \<and> y < 4 \<and> 0 \<le> c \<and> c < 1 \<longrightarrow>
              (\<exists>sx sy. src_coord x (f32_div (i2f 2) (i2f 4)) 2 = Inr sx \<and>
                 src_coord y (f32_div (i2f 2) (i2f 4)) 2 = Inr sy \<and>
                 0 \<le> sx \<and> sx < 2 \<and> 0 \<le> sy \<and> sy < 2 \<and>
                 out' ! nat ((y * 4 + x) * 1 + c) = [1, 2, 3, 4] ! nat ((sy * 2 + sx) * 1 + c))"
    by auto
  from px [rule_format, of 3 3 0] src_coord_examples(1) have "out' ! 15 = 4" by simp
  with res show "\<exists>out'. resize_image (Buf [1, 2, 3, 4]) 2 2 (Buf (replicate 16 0)) 4 4 1 = Inr (0, Buf out') \<and>
      out' ! 15 = 4" by blast
next
  from resize_samples_float_coordinate
    [THEN conjunct2, rule_format, of 1 2 1 1 2 "[1, 2, 3, 4, 5, 6, 7, 8, 9, 10, 11, 12]" "replicate 6 0"]
  obtain out' where res: "resize_video_frames (Buf [1, 2, 3, 4, 5, 6, 7, 8, 9, 10, 11, 12]) 1 2
        (Buf (replicate 6 0)) 1 1 2 = Inr (0, Buf out')"
    and px: "\<forall>f x y c. 0 \<le> f \<and> f < 2 \<and> 0 \<le> x \<and> x < 1 \<and> 0 \<le> y \<and> y < 1 \<and> 0 \<le> c \<and> c < 3 \<longrightarrow>
              (\<exists>sx sy. src_coord x (f32_div (i2f 1) (i2f 1)) 1 = Inr sx \<and>
                 src_coord y (f32_div (i2f 2) (i2f 1)) 2 = Inr sy \<and>
                 0 \<le> sx \<and> sx < 1 \<and> 0 \<le> sy \<and> sy < 2 \<and>
                 out' ! nat (f * (1 * 1 * 3) + (y * 1 + x) * 3 + c) =
                 [1, 2, 3, 4, 5, 6, 7, 8, 9, 10, 11, 12] ! nat (f * (1 * 2 * 3) + (sy * 1 + sx) * 3 + c))"
    by auto
  from px [rule_format, of 1 0 0 0] src_coord_examples(2,3) have "out' ! 3 = 7" by simp
  with res show "\<exists>out'. resize_video_frames (Buf [1, 2, 3, 4, 5, 6, 7, 8, 9, 10, 11, 12]) 1 2
        (Buf (replicate 6 0)) 1 1 2 = Inr (0, Buf out') \<and> out' ! 3 = 7" by blast
qed

end
